theory Spec2Isabelle
  imports Main "HOL-Library.AList"
begin

section \<open>Python values, type descriptors and exceptions\<close>

text \<open>
  The delegates of \<^verbatim>\<open>pymarshaler/arg_delegates.py\<close> work on dynamically typed Python
  values, so raw input and resolved output live in one universe.

  A class object that a delegate is bound to is a \<open>tydesc\<close>: a plain class
  (\<open>TName\<close>, it has no \<^verbatim>\<open>__args__\<close>) or a subscripted generic alias such as
  \<^verbatim>\<open>typing.List[int]\<close> (\<open>TGeneric\<close>, whose list is \<^verbatim>\<open>__args__\<close>).
\<close>

datatype tydesc = TName string | TGeneric string "tydesc list"

text \<open>
  \<open>PInt\<close> also stands for Python's \<^verbatim>\<open>bool\<close> (a subclass of \<^verbatim>\<open>int\<close> with
  \<^verbatim>\<open>True == 1\<close>). A \<open>PSet\<close> lists its elements in iteration order and a \<open>PDict\<close> its
  items in insertion order. \<open>PEnum c n v\<close> is the member named \<open>n\<close>, of value \<open>v\<close>, of
  the enum class \<open>c\<close>; \<open>PObj c kw\<close> is an instance of the class \<open>c\<close> built from the
  keyword arguments \<open>kw\<close>; \<open>PGen t xs\<close> is the suspended generator expression
  \<^verbatim>\<open>(func(t, x) for x in xs)\<close>, none of whose elements has been computed yet.

  Python's \<^verbatim>\<open>==\<close> is the equality of the model. The two agree on \<^verbatim>\<open>None\<close>, ints,
  strings, lists and tuples of such values and enum members; two dicts or two sets with
  the same entries in another order are equal in Python and distinct here, and
  instances and generators, which Python compares by identity unless the class says
  otherwise, are compared by their content.
\<close>

datatype pyval =
    PNone
  | PInt int
  | PStr string
  | PList "pyval list"
  | PTuple "pyval list"
  | PSet "pyval list"
  | PDict "(pyval \<times> pyval) list"
  | PEnum string string pyval
  | PObj string "(pyval \<times> pyval) list"
  | PGen tydesc "pyval list"

type_synonym pydict = "(pyval \<times> pyval) list"

text \<open>\<^verbatim>\<open>type(v).__name__\<close>\<close>

fun py_type :: "pyval \<Rightarrow> string" where
  "py_type PNone = ''NoneType''"
| "py_type (PInt _) = ''int''"
| "py_type (PStr _) = ''str''"
| "py_type (PList _) = ''list''"
| "py_type (PTuple _) = ''tuple''"
| "py_type (PSet _) = ''set''"
| "py_type (PDict _) = ''dict''"
| "py_type (PEnum c _ _) = c"
| "py_type (PObj c _) = c"
| "py_type (PGen _ _) = ''generator''"

text \<open>
  An f-string is kept as its pieces: literal text and interpolated values. An exception
  is its class name and its message.
\<close>

datatype msgpart = Lit string | Fmt pyval

datatype pyerr = Exn (exn_class: string) (exn_msg: "msgpart list")

type_synonym 'a result = "pyerr + 'a"

abbreviation UnknownFieldError :: "msgpart list \<Rightarrow> pyerr" where
  "UnknownFieldError \<equiv> Exn ''UnknownFieldError''"

abbreviation TypeError :: "msgpart list \<Rightarrow> pyerr" where
  "TypeError \<equiv> Exn ''TypeError''"

abbreviation ValueError :: "msgpart list \<Rightarrow> pyerr" where
  "ValueError \<equiv> Exn ''ValueError''"

abbreviation IndexError :: "msgpart list \<Rightarrow> pyerr" where
  "IndexError \<equiv> Exn ''IndexError''"

abbreviation AttributeError :: "msgpart list \<Rightarrow> pyerr" where
  "AttributeError \<equiv> Exn ''AttributeError''"

subsection \<open>Hashing, sets and dicts\<close>

text \<open>
  Lists, sets and dicts are unhashable; a tuple is hashable when its elements are.
  Storing a value in a set, using it as a dict key, and testing \<^verbatim>\<open>x in d\<close> on a dict
  all hash it first and raise \<^verbatim>\<open>TypeError\<close> when that fails. An instance is taken with
  the hash every object inherits; an instance of a class that defines \<^verbatim>\<open>__eq__\<close> without
  \<^verbatim>\<open>__hash__\<close> (a plain \<^verbatim>\<open>@dataclass\<close>) is unhashable in Python and is not told apart
  here.
\<close>

fun hashable :: "pyval \<Rightarrow> bool" where
  "hashable (PList _) = False"
| "hashable (PSet _) = False"
| "hashable (PDict _) = False"
| "hashable (PTuple xs) = list_all hashable xs"
| "hashable _ = True"

definition unhashable :: "pyval \<Rightarrow> pyerr" where
  "unhashable v = TypeError [Lit ''unhashable type'']"

text \<open>\<^verbatim>\<open>s.add(x)\<close> on the elements of a set.\<close>

definition set_add :: "pyval list \<Rightarrow> pyval \<Rightarrow> pyval list" where
  "set_add s x = (if x \<in> set s then s else s @ [x])"

text \<open>
  \<^verbatim>\<open>d[k] = v\<close> is \<open>AList.update k v d\<close>: an existing key keeps its place and takes the
  new value, a new key goes to the end. \<^verbatim>\<open>d.update(m)\<close> stores the items of \<open>m\<close> in
  order.
\<close>

definition dict_update :: "pydict \<Rightarrow> pydict \<Rightarrow> pydict" where
  "dict_update d m = fold (\<lambda>(k, v) a. AList.update k v a) m d"

text \<open>\<^verbatim>\<open>cls.__args__[i]\<close>\<close>

fun type_arg :: "tydesc \<Rightarrow> nat \<Rightarrow> tydesc result" where
  "type_arg (TName n) i = Inl (AttributeError [Lit n, Lit '' has no attribute __args__''])"
| "type_arg (TGeneric n args) i =
     (if i < length args then Inr (args ! i)
      else Inl (IndexError [Lit ''tuple index out of range'']))"

section \<open>The delegates\<close>

text \<open>
  \<^verbatim>\<open>ArgBuilderDelegate\<close> holds \<open>cls\<close>; \<^verbatim>\<open>FunctionalArgBuilderDelegate\<close> adds \<open>func\<close>, the
  dispatcher's entry point that resolves a nested value against a type;
  \<^verbatim>\<open>UserDefinedArgBuilderDelegate\<close> adds the two policies.
\<close>

record delegate =
  cls :: tydesc

record fdelegate = delegate +
  func :: "tydesc \<Rightarrow> pyval \<Rightarrow> pyval result"

record udelegate = fdelegate +
  ignore_unknown_fields :: bool
  walk_unknown_fields :: bool

subsection \<open>Enum delegates\<close>

text \<open>
  An enum class: its \<^verbatim>\<open>__name__\<close> and \<^verbatim>\<open>__members__.values()\<close> in declaration order,
  each member given by its name and its value.
\<close>

record enum_cls =
  enum_name :: string
  members :: "(string \<times> pyval) list"

definition member :: "enum_cls \<Rightarrow> string \<times> pyval \<Rightarrow> pyval" where
  "member c m = PEnum (enum_name c) (fst m) (snd m)"

definition invalid_value :: "enum_cls \<Rightarrow> pyval \<Rightarrow> pyerr" where
  "invalid_value c data =
     UnknownFieldError [Lit ''Invalid value '', Fmt data, Lit '' for enum '', Lit (enum_name c)]"

text \<open>\<^verbatim>\<open>EnumArgBuilderDelegate.resolve\<close>: the first member whose value is \<open>data\<close>.\<close>

fun Enum_scan :: "enum_cls \<Rightarrow> (string \<times> pyval) list \<Rightarrow> pyval \<Rightarrow> pyval result" where
  "Enum_scan c [] data = Inl (invalid_value c data)"
| "Enum_scan c (v # vs) data = (if snd v = data then Inr (member c v) else Enum_scan c vs data)"

definition Enum_resolve :: "enum_cls \<Rightarrow> pyval \<Rightarrow> pyval result" where
  "Enum_resolve c data = Enum_scan c (members c) data"

text \<open>
  \<^verbatim>\<open>CachedEnumArgBuilderDelegate.__init__\<close>: what it prints, and the table
  \<^verbatim>\<open>{v.value: v for v in members}\<close>, whose construction hashes every value.
\<close>

definition CachedEnum_init_prints :: "enum_cls \<Rightarrow> msgpart list list" where
  "CachedEnum_init_prints c =
     (if length (members c) \<le> 20
      then [[Lit ''WARNING: ENUM \"'', Lit (enum_name c),
             Lit ''\" HAS VERY FEW MEMBERS, IT MAY BE MORE EFFICIENT TO AVOID CACHING'']]
      else [])"

fun CachedEnum_build :: "enum_cls \<Rightarrow> (string \<times> pyval) list \<Rightarrow> pydict \<Rightarrow> pydict result" where
  "CachedEnum_build c [] table = Inr table"
| "CachedEnum_build c (v # vs) table =
     (if hashable (snd v) then CachedEnum_build c vs (AList.update (snd v) (member c v) table)
      else Inl (unhashable (snd v)))"

definition CachedEnum_init :: "enum_cls \<Rightarrow> pydict result" where
  "CachedEnum_init c = CachedEnum_build c (members c) []"

text \<open>\<^verbatim>\<open>CachedEnumArgBuilderDelegate.resolve\<close> on the table built by the constructor.\<close>

definition CachedEnum_resolve :: "enum_cls \<Rightarrow> pydict \<Rightarrow> pyval \<Rightarrow> pyval result" where
  "CachedEnum_resolve c table data =
     (if \<not> hashable data then Inl (unhashable data)
      else case map_of table data of
             None \<Rightarrow> Inl (invalid_value c data)
           | Some v \<Rightarrow> Inr v)"

subsection \<open>Collection delegates\<close>

text \<open>
  The delegates below take \<^verbatim>\<open>data\<close> as the source annotates it: for the list, set and
  tuple delegates the elements that \<^verbatim>\<open>for x in data\<close> yields, in that order, and for
  the dict and composite delegates the pairs of \<^verbatim>\<open>data.items()\<close>.

  The list comprehension \<^verbatim>\<open>[f(x) for x in data]\<close>: the elements in order, stopping at
  the first call that raises.
\<close>

fun list_comp :: "(pyval \<Rightarrow> pyval result) \<Rightarrow> pyval list \<Rightarrow> pyval list result" where
  "list_comp f [] = Inr []"
| "list_comp f (x # xs) =
     (case f x of
        Inl e \<Rightarrow> Inl e
      | Inr y \<Rightarrow> (case list_comp f xs of Inl e \<Rightarrow> Inl e | Inr ys \<Rightarrow> Inr (y # ys)))"

text \<open>\<^verbatim>\<open>ListArgBuilderDelegate.resolve\<close>\<close>

definition List_resolve :: "'a fdelegate_scheme \<Rightarrow> pyval list \<Rightarrow> pyval result" where
  "List_resolve d data =
     (case type_arg (cls d) 0 of
        Inl e \<Rightarrow> Inl e
      | Inr inner_type \<Rightarrow>
          (case list_comp (func d inner_type) data of
             Inl e \<Rightarrow> Inl e
           | Inr ys \<Rightarrow> Inr (PList ys)))"

text \<open>
  The set comprehension \<^verbatim>\<open>{f(x) for x in data}\<close>: each element is computed, hashed and
  added before the next one is looked at.
\<close>

fun set_comp :: "(pyval \<Rightarrow> pyval result) \<Rightarrow> pyval list \<Rightarrow> pyval list \<Rightarrow> pyval list result" where
  "set_comp f [] s = Inr s"
| "set_comp f (x # xs) s =
     (case f x of
        Inl e \<Rightarrow> Inl e
      | Inr y \<Rightarrow> if hashable y then set_comp f xs (set_add s y) else Inl (unhashable y))"

text \<open>\<^verbatim>\<open>SetArgBuilderDelegate.resolve\<close>\<close>

definition Set_resolve :: "'a fdelegate_scheme \<Rightarrow> pyval list \<Rightarrow> pyval result" where
  "Set_resolve d data =
     (case type_arg (cls d) 0 of
        Inl e \<Rightarrow> Inl e
      | Inr inner_type \<Rightarrow>
          (case set_comp (func d inner_type) data [] of
             Inl e \<Rightarrow> Inl e
           | Inr s \<Rightarrow> Inr (PSet s)))"

text \<open>
  \<^verbatim>\<open>TupleArgBuilderDelegate.resolve\<close> returns the generator object without running it.
\<close>

definition Tuple_resolve :: "'a fdelegate_scheme \<Rightarrow> pyval list \<Rightarrow> pyval result" where
  "Tuple_resolve d data =
     (case type_arg (cls d) 0 of
        Inl e \<Rightarrow> Inl e
      | Inr inner_type \<Rightarrow> Inr (PGen inner_type data))"

text \<open>
  \<^verbatim>\<open>list(v)\<close>: forcing a generator of a delegate runs the delegate's \<open>func\<close> on the
  pending elements, in order.
\<close>

fun py_list :: "(tydesc \<Rightarrow> pyval \<Rightarrow> pyval result) \<Rightarrow> pyval \<Rightarrow> pyval list result" where
  "py_list f (PGen t xs) = list_comp (f t) xs"
| "py_list f (PList xs) = Inr xs"
| "py_list f (PTuple xs) = Inr xs"
| "py_list f (PSet xs) = Inr xs"
| "py_list f (PDict kvs) = Inr (map fst kvs)"
| "py_list f (PStr s) = Inr (map (\<lambda>c. PStr [c]) s)"
| "py_list f v = Inl (TypeError [Lit (py_type v), Lit '' object is not iterable''])"

text \<open>
  The dict comprehension \<^verbatim>\<open>{fk(key): fv(value) for key, value in data.items()}\<close>: the
  key is computed before the value, then the entry is stored.
\<close>

fun dict_comp ::
  "(pyval \<Rightarrow> pyval result) \<Rightarrow> (pyval \<Rightarrow> pyval result) \<Rightarrow> pydict \<Rightarrow> pydict \<Rightarrow> pydict result"
where
  "dict_comp fk fv [] acc = Inr acc"
| "dict_comp fk fv ((key, value) # rest) acc =
     (case fk key of
        Inl e \<Rightarrow> Inl e
      | Inr k \<Rightarrow>
          (case fv value of
             Inl e \<Rightarrow> Inl e
           | Inr v \<Rightarrow>
               if hashable k then dict_comp fk fv rest (AList.update k v acc)
               else Inl (unhashable k)))"

text \<open>\<^verbatim>\<open>DictArgBuilderDelegate.resolve\<close>\<close>

definition Dict_resolve :: "'a fdelegate_scheme \<Rightarrow> pydict \<Rightarrow> pyval result" where
  "Dict_resolve d data =
     (case type_arg (cls d) 0 of
        Inl e \<Rightarrow> Inl e
      | Inr key_type \<Rightarrow>
          (case type_arg (cls d) 1 of
             Inl e \<Rightarrow> Inl e
           | Inr value_type \<Rightarrow>
               (case dict_comp (func d key_type) (func d value_type) data [] of
                  Inl e \<Rightarrow> Inl e
                | Inr m \<Rightarrow> Inr (PDict m))))"

subsection \<open>Leaf delegates\<close>

text \<open>
  \<^verbatim>\<open>BuiltinArgBuilderDelegate.resolve\<close>. Calling the class \<^verbatim>\<open>self.cls(data)\<close> is the
  parameter \<open>call\<close>: what it returns or raises belongs to the class, not to the delegate.
\<close>

definition Builtin_resolve ::
  "(tydesc \<Rightarrow> pyval \<Rightarrow> pyval result) \<Rightarrow> 'a delegate_scheme \<Rightarrow> pyval \<Rightarrow> pyval result"
where
  "Builtin_resolve call d data = (if data = PNone then Inr PNone else call (cls d) data)"

text \<open>
  \<^verbatim>\<open>DateTimeArgBuilderDelegate.resolve\<close>; \<open>parse\<close> is \<^verbatim>\<open>dateutil.parser.parse\<close>.
\<close>

definition DateTime_resolve :: "(pyval \<Rightarrow> pyval result) \<Rightarrow> pyval \<Rightarrow> pyval result" where
  "DateTime_resolve parse data = parse data"

subsection \<open>User-defined composite delegate\<close>

definition unknown_field :: "pyval \<Rightarrow> pyval \<Rightarrow> pyerr" where
  "unknown_field key value =
     UnknownFieldError
       [Lit ''Found unknown field ('', Fmt key, Lit '': '', Fmt value, Lit ''). '',
        Lit ''If you would like to skip unknown fields '',
        Lit ''create a Marshal object who can skip ignore_unknown_fields'']"

text \<open>
  \<^verbatim>\<open>key in unsatisfied\<close> and \<^verbatim>\<open>unsatisfied[key]\<close>: the parameter names are strings, so
  a key of any other type is not among them.
\<close>

fun param_of :: "(string \<rightharpoonup> tydesc) \<Rightarrow> pyval \<Rightarrow> tydesc option" where
  "param_of unsatisfied (PStr s) = unsatisfied s"
| "param_of unsatisfied _ = None"

text \<open>
  \<^verbatim>\<open>isinstance(value, dict)\<close> and \<^verbatim>\<open>isinstance(value, (list, set, tuple))\<close>, with what
  the loop then iterates over.
\<close>

fun as_dict :: "pyval \<Rightarrow> pydict option" where
  "as_dict (PDict m) = Some m"
| "as_dict _ = None"

fun as_sequence :: "pyval \<Rightarrow> pyval list option" where
  "as_sequence (PList xs) = Some xs"
| "as_sequence (PSet xs) = Some xs"
| "as_sequence (PTuple xs) = Some xs"
| "as_sequence _ = None"

text \<open>
  \<^verbatim>\<open>UserDefinedArgBuilderDelegate._resolve\<close>. The introspection helper
  \<^verbatim>\<open>get_init_params\<close> of \<^verbatim>\<open>pymarshaler.utils\<close> is the parameter \<open>gip\<close>. \<open>items_loop\<close> is
  the loop over \<^verbatim>\<open>data.items()\<close> and \<open>walk_loop\<close> the loop over the elements of an
  unknown list, set or tuple; both carry \<^verbatim>\<open>args\<close>.
\<close>

function UserDefined_resolve_inner ::
    "(tydesc \<Rightarrow> string \<rightharpoonup> tydesc) \<Rightarrow> 'a udelegate_scheme \<Rightarrow> tydesc \<Rightarrow> pydict \<Rightarrow> pydict result"
  and items_loop ::
    "(tydesc \<Rightarrow> string \<rightharpoonup> tydesc) \<Rightarrow> 'a udelegate_scheme \<Rightarrow> tydesc \<Rightarrow> pydict \<Rightarrow> pydict \<Rightarrow> pydict result"
  and walk_loop ::
    "(tydesc \<Rightarrow> string \<rightharpoonup> tydesc) \<Rightarrow> 'a udelegate_scheme \<Rightarrow> tydesc \<Rightarrow> pyval list \<Rightarrow> pydict \<Rightarrow> pydict result"
where
  "UserDefined_resolve_inner gip d c data = items_loop gip d c data []"
| "items_loop gip d c [] args = Inr args"
| "items_loop gip d c ((key, value) # rest) args =
     (case param_of (gip c) key of
        Some param_type \<Rightarrow>
          (case func d param_type value of
             Inl e \<Rightarrow> Inl e
           | Inr r \<Rightarrow> items_loop gip d c rest (AList.update key r args))
      | None \<Rightarrow>
          if \<not> ignore_unknown_fields d then Inl (unknown_field key value)
          else if walk_unknown_fields d then
            (case as_dict value of
               Some m \<Rightarrow>
                 (case UserDefined_resolve_inner gip d c m of
                    Inl e \<Rightarrow> Inl e
                  | Inr found \<Rightarrow> items_loop gip d c rest (dict_update args found))
             | None \<Rightarrow>
                 (case as_sequence value of
                    Some xs \<Rightarrow>
                      (case walk_loop gip d c xs args of
                         Inl e \<Rightarrow> Inl e
                       | Inr args' \<Rightarrow> items_loop gip d c rest args')
                  | None \<Rightarrow> items_loop gip d c rest args))
          else items_loop gip d c rest args)"
| "walk_loop gip d c [] args = Inr args"
| "walk_loop gip d c (x # xs) args =
     (case as_dict x of
        Some m \<Rightarrow>
          (case UserDefined_resolve_inner gip d c m of
             Inl e \<Rightarrow> Inl e
           | Inr found \<Rightarrow> walk_loop gip d c xs (dict_update args found))
      | None \<Rightarrow> walk_loop gip d c xs args)"
  by pat_completeness auto
termination
  by (relation "measure (\<lambda>x. case x of
          Inl (_, _, _, data) \<Rightarrow> 2 * size_list (size_prod size size) data + 1
        | Inr (Inl (_, _, _, items, _)) \<Rightarrow> 2 * size_list (size_prod size size) items
        | Inr (Inr (_, _, _, xs, _)) \<Rightarrow> 2 * size_list size xs)")
    (auto elim!: as_dict.elims as_sequence.elims)

text \<open>
  \<^verbatim>\<open>UserDefinedArgBuilderDelegate.resolve\<close> returns what \<^verbatim>\<open>_resolve\<close> returns: the dict
  \<^verbatim>\<open>args\<close>.
\<close>

definition UserDefined_resolve ::
  "(tydesc \<Rightarrow> string \<rightharpoonup> tydesc) \<Rightarrow> 'a udelegate_scheme \<Rightarrow> pydict \<Rightarrow> pyval result"
where
  "UserDefined_resolve gip d data =
     (case UserDefined_resolve_inner gip d (cls d) data of
        Inl e \<Rightarrow> Inl e
      | Inr args \<Rightarrow> Inr (PDict args))"

section \<open>Example inputs\<close>

text \<open>
  Python's \<^verbatim>\<open>Enum\<close> turns a name declared with the value of an earlier member into an
  alias of that member, so two entries of \<^verbatim>\<open>__members__\<close> with the same value are the
  same member.
\<close>

definition enum_wf :: "enum_cls \<Rightarrow> bool" where
  "enum_wf c = (\<forall>m1 \<in> set (members c). \<forall>m2 \<in> set (members c). snd m1 = snd m2 \<longrightarrow> m1 = m2)"

text \<open>\<^verbatim>\<open>class Color(Enum): RED = 1; GREEN = 2\<close> and the table its cached delegate builds.\<close>

definition Color :: enum_cls where
  "Color = \<lparr>enum_name = ''Color'', members = [(''RED'', PInt 1), (''GREEN'', PInt 2)]\<rparr>"

definition Color_table :: pydict where
  "Color_table =
     [(PInt 1, PEnum ''Color'' ''RED'' (PInt 1)), (PInt 2, PEnum ''Color'' ''GREEN'' (PInt 2))]"

text \<open>
  A class to call and a dispatcher to recurse through, for the examples: Python's
  \<^verbatim>\<open>int\<close> on the values of the model (an \<^verbatim>\<open>int\<close>, or a string holding a decimal
  literal with an optional sign; surrounding blanks and underscores, which Python also
  accepts, are left out), and a dispatcher that sends \<^verbatim>\<open>int\<close> to it and returns every
  other value as it is.
\<close>

definition digit_val :: "char \<Rightarrow> int option" where
  "digit_val c = map_of (zip ''0123456789'' [0, 1, 2, 3, 4, 5, 6, 7, 8, 9]) c"

fun parse_digits :: "string \<Rightarrow> int \<Rightarrow> int option" where
  "parse_digits [] acc = Some acc"
| "parse_digits (c # cs) acc =
     (case digit_val c of None \<Rightarrow> None | Some n \<Rightarrow> parse_digits cs (10 * acc + n))"

fun parse_int :: "string \<Rightarrow> int option" where
  "parse_int [] = None"
| "parse_int (c # cs) =
     (if c = CHR ''-'' then (if cs = [] then None else map_option uminus (parse_digits cs 0))
      else if c = CHR ''+'' then (if cs = [] then None else parse_digits cs 0)
      else parse_digits (c # cs) 0)"

fun py_int :: "pyval \<Rightarrow> pyval result" where
  "py_int (PInt n) = Inr (PInt n)"
| "py_int (PStr s) =
     (case parse_int s of
        Some n \<Rightarrow> Inr (PInt n)
      | None \<Rightarrow> Inl (ValueError [Lit ''invalid literal for int() with base 10: '', Fmt (PStr s)]))"
| "py_int v =
     Inl (TypeError
           [Lit ''int() argument must be a string, a bytes-like object or a real number, not '',
            Lit (py_type v)])"

definition sample_func :: "tydesc \<Rightarrow> pyval \<Rightarrow> pyval result" where
  "sample_func t v = (if t = TName ''int'' then py_int v else Inr v)"

text \<open>Delegates for \<^verbatim>\<open>List[int]\<close>, \<^verbatim>\<open>Set[int]\<close>, \<^verbatim>\<open>Tuple[int, str]\<close> and \<^verbatim>\<open>Dict[int, str]\<close>.\<close>

definition int_list :: fdelegate where
  "int_list = \<lparr>cls = TGeneric ''List'' [TName ''int''], func = sample_func\<rparr>"

definition int_set :: fdelegate where
  "int_set = \<lparr>cls = TGeneric ''Set'' [TName ''int''], func = sample_func\<rparr>"

definition int_str_tuple :: fdelegate where
  "int_str_tuple = \<lparr>cls = TGeneric ''Tuple'' [TName ''int'', TName ''str''], func = sample_func\<rparr>"

definition int_str_dict :: fdelegate where
  "int_str_dict = \<lparr>cls = TGeneric ''Dict'' [TName ''int'', TName ''str''], func = sample_func\<rparr>"

text \<open>
  A date parser for the examples, in place of \<^verbatim>\<open>dateutil.parser.parse\<close>: it knows one
  date and raises what \<^verbatim>\<open>dateutil\<close> raises on another string or on a value that is not
  a string.
\<close>

definition sample_parse :: "pyval \<Rightarrow> pyval result" where
  "sample_parse v =
     (case v of
        PStr s \<Rightarrow>
          if s = ''2023-01-15T10:00:00''
          then Inr (PObj ''datetime''
                 [(PStr ''year'', PInt 2023), (PStr ''month'', PInt 1), (PStr ''day'', PInt 15),
                  (PStr ''hour'', PInt 10), (PStr ''minute'', PInt 0), (PStr ''second'', PInt 0)])
          else Inl (Exn ''ParserError'' [Lit ''Unknown string format: '', Fmt v])
      | _ \<Rightarrow>
          Inl (TypeError [Lit ''Parser must be a string or character stream, not '',
                          Lit (py_type v)]))"

text \<open>The scalar delegate bound to \<^verbatim>\<open>int\<close>.\<close>

definition int_delegate :: delegate where
  "int_delegate = \<lparr>cls = TName ''int''\<rparr>"

text \<open>
  Two composite classes, \<^verbatim>\<open>Named(name: str)\<close> and \<^verbatim>\<open>Person(name: str, age: int)\<close>, as
  \<^verbatim>\<open>get_init_params\<close> describes them; a delegate of the first that walks unknown fields
  and a delegate of the second that rejects them.
\<close>

definition sample_gip :: "tydesc \<Rightarrow> string \<rightharpoonup> tydesc" where
  "sample_gip c =
     (if c = TName ''Named'' then [''name'' \<mapsto> TName ''str'']
      else if c = TName ''Person'' then [''name'' \<mapsto> TName ''str'', ''age'' \<mapsto> TName ''int'']
      else Map.empty)"

definition named_walk :: udelegate where
  "named_walk = \<lparr>cls = TName ''Named'', func = sample_func,
                  ignore_unknown_fields = True, walk_unknown_fields = True\<rparr>"

definition person_strict :: udelegate where
  "person_strict = \<lparr>cls = TName ''Person'', func = sample_func,
                     ignore_unknown_fields = False, walk_unknown_fields = False\<rparr>"

text \<open>
  The keys a composite type expects, and what \<^verbatim>\<open>args\<close> is at every point of
  \<^verbatim>\<open>_resolve\<close>: a dict of expected keys, each once.
\<close>

definition expected :: "(string \<rightharpoonup> tydesc) \<Rightarrow> pyval set" where
  "expected ps = {k. param_of ps k \<noteq> None}"

definition field_map :: "(string \<rightharpoonup> tydesc) \<Rightarrow> pydict \<Rightarrow> bool" where
  "field_map ps args = (fst ` set args \<subseteq> expected ps \<and> distinct (map fst args))"

text \<open>
  The entries that the resolution of a mapping stores, in the order it meets them: an
  entry whose key is an expected parameter is one; an entry with another key gives, when
  unknown fields are walked (\<open>w\<close>), the entries found in the same way inside its value
  if that is a mapping, inside each mapping among its elements if it is a list, set or
  tuple, and none otherwise; when they are not walked it gives none. This is the
  traversal that the step descriptions of the composite delegate lay out; the loops of
  \<^verbatim>\<open>_resolve\<close> are compared with it below.
\<close>

function discovered :: "(string \<rightharpoonup> tydesc) \<Rightarrow> bool \<Rightarrow> pydict \<Rightarrow> pydict"
  and discovered_elems :: "(string \<rightharpoonup> tydesc) \<Rightarrow> pyval list \<Rightarrow> pydict"
where
  "discovered ps w [] = []"
| "discovered ps w ((key, value) # rest) =
     (case param_of ps key of
        Some t \<Rightarrow> [(key, value)]
      | None \<Rightarrow>
          if w then
            (case as_dict value of
               Some m \<Rightarrow> discovered ps w m
             | None \<Rightarrow>
                 (case as_sequence value of
                    Some xs \<Rightarrow> discovered_elems ps xs
                  | None \<Rightarrow> []))
          else [])
     @ discovered ps w rest"
| "discovered_elems ps [] = []"
| "discovered_elems ps (x # xs) =
     (case as_dict x of Some m \<Rightarrow> discovered ps True m | None \<Rightarrow> [])
     @ discovered_elems ps xs"
  by pat_completeness auto
termination
  by (relation "measure (\<lambda>x. case x of
          Inl (_, _, items) \<Rightarrow> size_list (size_prod size size) items
        | Inr (_, xs) \<Rightarrow> size_list size xs)")
    (auto elim!: as_dict.elims as_sequence.elims)

text \<open>Delegates of \<^verbatim>\<open>Person\<close> that ignore unknown fields, with and without walking them.\<close>

definition person_walk :: udelegate where
  "person_walk = \<lparr>cls = TName ''Person'', func = sample_func,
                   ignore_unknown_fields = True, walk_unknown_fields = True\<rparr>"

definition person_ignore :: udelegate where
  "person_ignore = \<lparr>cls = TName ''Person'', func = sample_func,
                     ignore_unknown_fields = True, walk_unknown_fields = False\<rparr>"

section \<open>Properties of the enum delegates\<close>

lemma map_of_rev_functional:
  assumes "\<forall>p \<in> set L. \<forall>q \<in> set L. fst p = fst q \<longrightarrow> snd p = snd q"
  shows "map_of (rev L) k = map_of L k"
proof (cases "map_of L k")
  case None
  then have "k \<notin> fst ` set L" by (simp add: map_of_eq_None_iff)
  then have "map_of (rev L) k = None" by (simp add: map_of_eq_None_iff)
  with None show ?thesis by simp
next
  case (Some v)
  then have in1: "(k, v) \<in> set L" by (rule map_of_SomeD)
  then have "k \<in> fst ` set (rev L)" by force
  then obtain v' where s': "map_of (rev L) k = Some v'"
    by (cases "map_of (rev L) k") (simp_all add: map_of_eq_None_iff)
  then have "(k, v') \<in> set L" using map_of_SomeD by fastforce
  with in1 assms have "v' = v" by fastforce
  with s' Some show ?thesis by simp
qed

text \<open>The linear scan is a lookup of the first entry with the given value.\<close>

lemma Enum_scan_map_of:
  "Enum_scan c ms data =
     (case map_of (map (\<lambda>m. (snd m, member c m)) ms) data of
        None \<Rightarrow> Inl (invalid_value c data) | Some v \<Rightarrow> Inr v)"
  by (induction ms) auto

lemma Enum_scan_found:
  "m \<in> set ms \<Longrightarrow> (\<forall>m1 \<in> set ms. \<forall>m2 \<in> set ms. snd m1 = snd m2 \<longrightarrow> m1 = m2) \<Longrightarrow>
   Enum_scan c ms (snd m) = Inr (member c m)"
  by (induction ms) auto

text \<open>The linear scan returns the member whose value is given \<dots>\<close>

lemma Enum_resolve_member:
  assumes "enum_wf c" and "m \<in> set (members c)"
  shows "Enum_resolve c (snd m) = Inr (member c m)"
  using assms Enum_scan_found [of m "members c" c]
  by (simp add: Enum_resolve_def enum_wf_def)

text \<open>\<dots> and raises \<^verbatim>\<open>UnknownFieldError\<close>, naming the value and the enum, when there is none.\<close>

lemma Enum_resolve_no_member:
  assumes "data \<notin> snd ` set (members c)"
  shows "Enum_resolve c data = Inl (invalid_value c data)"
proof -
  have "map_of (map (\<lambda>m. (snd m, member c m)) (members c)) data = None"
    using assms by (force simp: map_of_eq_None_iff)
  then show ?thesis by (simp add: Enum_resolve_def Enum_scan_map_of)
qed

text \<open>The table of the cached delegate: a later member overwrites an earlier one.\<close>

lemma CachedEnum_build_map:
  "CachedEnum_build c ms t = Inr tbl \<Longrightarrow>
   map_of tbl = map_of t ++ map_of (rev (map (\<lambda>m. (snd m, member c m)) ms))"
proof (induction ms arbitrary: t)
  case Nil
  then show ?case by simp
next
  case (Cons m ms)
  then show ?case
    by (auto split: if_splits option.splits
        simp: AList.update_conv' map_add_upd_left fun_eq_iff map_add_def)
qed

text \<open>On a hashable input the two variants do the same.\<close>

lemma enum_variants_agree_on_hashable:
  assumes wf: "enum_wf c" and init: "CachedEnum_init c = Inr table" and h: "hashable data"
  shows "CachedEnum_resolve c table data = Enum_resolve c data"
proof -
  let ?L = "map (\<lambda>m. (snd m, member c m)) (members c)"
  have fn: "\<forall>p \<in> set ?L. \<forall>q \<in> set ?L. fst p = fst q \<longrightarrow> snd p = snd q"
    using wf by (auto simp: enum_wf_def)
  have "map_of table = map_of (rev ?L)"
    using CachedEnum_build_map [of c "members c" "[]" table] init
    by (simp add: CachedEnum_init_def)
  then have "map_of table data = map_of ?L data"
    using map_of_rev_functional [OF fn] by simp
  then show ?thesis
    using h by (simp add: CachedEnum_resolve_def Enum_resolve_def Enum_scan_map_of)
qed

text \<open>
  A table that was built holds hashable values only, so the cached delegate also
  returns the member whose value is given.
\<close>

lemma CachedEnum_build_hashable:
  "CachedEnum_build c ms t = Inr tbl \<Longrightarrow> m \<in> set ms \<Longrightarrow> hashable (snd m)"
  by (induction ms arbitrary: t) (auto split: if_splits)

lemma CachedEnum_resolve_member:
  assumes "enum_wf c" and "CachedEnum_init c = Inr table" and "m \<in> set (members c)"
  shows "CachedEnum_resolve c table (snd m) = Inr (member c m)"
proof -
  have "hashable (snd m)"
    using assms(2,3) CachedEnum_build_hashable [of c "members c" "[]" table m]
    by (simp add: CachedEnum_init_def)
  with assms show ?thesis
    by (simp add: enum_variants_agree_on_hashable Enum_resolve_member)
qed

text \<open>
  Claim C5: for either enum delegate, an input equal to a member's value resolves to that
  member, and an input equal to no member's value fails with \<^verbatim>\<open>UnknownFieldError\<close> naming
  the value and the enum type. The linear scan does both (\<open>Enum_resolve_member\<close>,
  \<open>Enum_resolve_no_member\<close>). The cached delegate does not do the second: the list
  \<^verbatim>\<open>[1]\<close> equals no value of \<^verbatim>\<open>Color\<close>, and the membership test on the table raises
  \<^verbatim>\<open>TypeError\<close> because a list cannot be hashed.
\<close>

theorem cached_enum_unhashable_input:
  "CachedEnum_init Color = Inr Color_table \<and>
   PList [PInt 1] \<notin> snd ` set (members Color) \<and>
   CachedEnum_resolve Color Color_table (PList [PInt 1]) =
     Inl (TypeError [Lit ''unhashable type''])"
  by (simp add: CachedEnum_init_def Color_def Color_table_def member_def
      CachedEnum_resolve_def unhashable_def)

text \<open>
  Claim C6: the linear-scan and the cached-table delegate have the same outcome on every
  input, the same member or the same kind of error. They agree on every hashable input
  (\<open>enum_variants_agree_on_hashable\<close>); on the list \<^verbatim>\<open>[1]\<close> the scan raises
  \<^verbatim>\<open>UnknownFieldError\<close> and the cached delegate \<^verbatim>\<open>TypeError\<close>.
\<close>

theorem enum_variants_differ:
  "CachedEnum_init Color = Inr Color_table \<and>
   Enum_resolve Color (PList [PInt 1]) =
     Inl (UnknownFieldError
           [Lit ''Invalid value '', Fmt (PList [PInt 1]), Lit '' for enum '', Lit ''Color'']) \<and>
   CachedEnum_resolve Color Color_table (PList [PInt 1]) =
     Inl (TypeError [Lit ''unhashable type''])"
  by (simp add: CachedEnum_init_def Color_def Color_table_def member_def Enum_resolve_def
      CachedEnum_resolve_def unhashable_def invalid_value_def)

section \<open>Properties of the collection delegates\<close>

lemma list_comp_ok:
  "\<forall>x \<in> set xs. f x = Inr (r x) \<Longrightarrow> list_comp f xs = Inr (map r xs)"
  by (induction xs) auto

lemma set_add_set: "set (set_add s x) = insert x (set s)"
  by (auto simp: set_add_def)

lemma set_add_distinct: "distinct s \<Longrightarrow> distinct (set_add s x)"
  by (auto simp: set_add_def)

lemma set_comp_ok:
  "\<forall>x \<in> set xs. f x = Inr (r x) \<and> hashable (r x) \<Longrightarrow> distinct s \<Longrightarrow>
   \<exists>s'. set_comp f xs s = Inr s' \<and> set s' = set s \<union> r ` set xs \<and> distinct s'"
proof (induction xs arbitrary: s)
  case Nil
  then show ?case by simp
next
  case (Cons x xs)
  have "distinct (set_add s (r x))" using Cons.prems(2) by (rule set_add_distinct)
  with Cons.IH [of "set_add s (r x)"] Cons.prems(1)
  obtain s' where "set_comp f xs (set_add s (r x)) = Inr s'"
    and "set s' = set (set_add s (r x)) \<union> r ` set xs" and "distinct s'"
    by auto
  then show ?case using Cons.prems(1) by (auto simp: set_add_set)
qed

text \<open>
  Claim C7: with element type \<open>T\<close> and \<open>r x\<close> the resolution of \<open>x\<close> against \<open>T\<close>, the
  ordered-sequence delegate returns the list of the \<open>r x\<close> in the order of the input
  (so of the same length), and the unordered-collection delegate returns a set whose
  elements are exactly the \<open>r x\<close>, each once. The elements of a Python set are hashable
  values, which is what the set half asks of the \<open>r x\<close>; the list half does not.
\<close>

theorem collections_resolve_elementwise:
  assumes "type_arg (cls dl) 0 = Inr T" and "\<forall>x \<in> set xs. func dl T x = Inr (r x)"
    and "type_arg (cls ds) 0 = Inr T" and "\<forall>x \<in> set xs. func ds T x = Inr (r x)"
  shows "List_resolve dl xs = Inr (PList (map r xs)) \<and>
         ((\<forall>x \<in> set xs. hashable (r x)) \<longrightarrow>
          (\<exists>s. Set_resolve ds xs = Inr (PSet s) \<and> set s = r ` set xs \<and> distinct s))"
proof (intro conjI impI)
  show "List_resolve dl xs = Inr (PList (map r xs))"
    using assms(1) list_comp_ok [OF assms(2)] by (simp add: List_resolve_def)
next
  assume "\<forall>x \<in> set xs. hashable (r x)"
  with assms(4) have "\<forall>x \<in> set xs. func ds T x = Inr (r x) \<and> hashable (r x)"
    by simp
  from set_comp_ok [OF this, of "[]"]
  obtain s where "set_comp (func ds T) xs [] = Inr s" and "set s = r ` set xs" and "distinct s"
    by auto
  then show "\<exists>s. Set_resolve ds xs = Inr (PSet s) \<and> set s = r ` set xs \<and> distinct s"
    using assms(3) by (simp add: Set_resolve_def)
qed

theorem collections_resolve_elementwise_witness:
  "List_resolve int_list [PStr ''3'', PInt 2, PStr ''3''] = Inr (PList [PInt 3, PInt 2, PInt 3]) \<and>
   (\<exists>s. Set_resolve int_set [PStr ''3'', PInt 2, PStr ''3''] = Inr (PSet s) \<and>
        set s = {PInt 2, PInt 3} \<and> distinct s)"
  using collections_resolve_elementwise [of int_list "TName ''int''"
      "[PStr ''3'', PInt 2, PStr ''3'']" "\<lambda>v. case v of PStr _ \<Rightarrow> PInt 3 | _ \<Rightarrow> v" int_set]
  by (simp add: int_list_def int_set_def sample_func_def digit_val_def insert_commute)

text \<open>
  A resolved element that cannot be hashed, here a list, cannot be stored in the set:
  the comprehension raises \<^verbatim>\<open>TypeError\<close>.
\<close>

lemma Set_resolve_unhashable_element:
  "Set_resolve \<lparr>cls = TGeneric ''Set'' [TGeneric ''List'' [TName ''int'']], func = sample_func\<rparr>
     [PList [PInt 1]] = Inl (TypeError [Lit ''unhashable type''])"
  by (simp add: Set_resolve_def sample_func_def unhashable_def)

text \<open>What \<^verbatim>\<open>d.update(m)\<close> leaves in \<open>d\<close>: for a key of both, the last value stored.\<close>

lemma dict_update_map_of: "map_of (dict_update d m) = map_of d ++ map_of (rev m)"
  unfolding dict_update_def
proof (induction m arbitrary: d)
  case Nil
  then show ?case by simp
next
  case (Cons p m)
  obtain k v where p: "p = (k, v)" by (cases p)
  have "map_of (AList.update k v d) ++ map_of (rev m) = map_of d ++ map_of (rev m @ [(k, v)])"
    by (simp add: AList.update_conv' map_of_append fun_eq_iff map_add_def split: option.splits)
  then show ?case using Cons.IH [of "AList.update k v d"] p by simp
qed

lemma dict_update_keys: "fst ` set (dict_update d m) = fst ` set d \<union> fst ` set m"
  unfolding dict_update_def
proof (induction m arbitrary: d)
  case Nil
  then show ?case by simp
next
  case (Cons p m)
  obtain k v where p: "p = (k, v)" by (cases p)
  have "fst ` set (AList.update k v d) \<union> fst ` set m = fst ` set d \<union> fst ` set (p # m)"
    unfolding AList.dom_update p by auto
  then show ?case using Cons.IH [of "AList.update k v d"] p by simp
qed

lemma dict_update_distinct: "distinct (map fst d) \<Longrightarrow> distinct (map fst (dict_update d m))"
  unfolding dict_update_def
  by (induction m arbitrary: d) (auto simp: AList.distinct_update)

lemma dict_comp_ok:
  "\<forall>(k, v) \<in> set data. fk k = Inr (rk k) \<and> hashable (rk k) \<and> fv v = Inr (rv v) \<Longrightarrow>
   dict_comp fk fv data acc = Inr (dict_update acc (map (\<lambda>(k, v). (rk k, rv v)) data))"
  by (induction data arbitrary: acc) (auto simp: dict_update_def)

text \<open>
  Claim C8: with \<open>rk k\<close> the resolution of a key against the key type and \<open>rv v\<close> that of
  a value against the value type, the key-value mapping delegate returns a dict \<open>m\<close>
  with unique keys, the resolved keys of the input, in which a resolved key has the
  resolved value of the last input entry it comes from. For two entries: both resolved
  entries when the resolved keys differ, and one entry with the second value when they
  collapse. The keys of a Python dict are hashable values, as assumed of the \<open>rk k\<close>.
\<close>

theorem Dict_resolve_entries:
  assumes K: "type_arg (cls d) 0 = Inr K" and V: "type_arg (cls d) 1 = Inr V"
    and ok: "\<forall>(k, v) \<in> set data.
               func d K k = Inr (rk k) \<and> hashable (rk k) \<and> func d V v = Inr (rv v)"
  shows "\<exists>m. Dict_resolve d data = Inr (PDict m) \<and> distinct (map fst m) \<and>
             fst ` set m = rk ` fst ` set data \<and>
             (\<forall>k'. map_of m k' = map_of (rev (map (\<lambda>(k, v). (rk k, rv v)) data)) k') \<and>
             (\<forall>k1 v1 k2 v2. data = [(k1, v1), (k2, v2)] \<longrightarrow>
                m = (if rk k1 = rk k2 then [(rk k1, rv v2)]
                     else [(rk k1, rv v1), (rk k2, rv v2)]))"
proof -
  let ?m = "dict_update [] (map (\<lambda>(k, v). (rk k, rv v)) data)"
  have res: "Dict_resolve d data = Inr (PDict ?m)"
    using K V dict_comp_ok [OF ok, of "[]"] by (simp add: Dict_resolve_def)
  have dist: "distinct (map fst ?m)"
    by (rule dict_update_distinct) simp
  have keys: "fst ` set ?m = rk ` fst ` set data"
    by (force simp: dict_update_keys)
  have look: "\<forall>k'. map_of ?m k' = map_of (rev (map (\<lambda>(k, v). (rk k, rv v)) data)) k'"
    by (simp add: dict_update_map_of)
  have two: "\<forall>k1 v1 k2 v2. data = [(k1, v1), (k2, v2)] \<longrightarrow>
      ?m = (if rk k1 = rk k2 then [(rk k1, rv v2)] else [(rk k1, rv v1), (rk k2, rv v2)])"
    by (auto simp: dict_update_def)
  from res dist keys look two show ?thesis by blast
qed

theorem Dict_resolve_entries_witness:
  "\<exists>m. Dict_resolve int_str_dict [(PStr ''7'', PStr ''a''), (PStr ''07'', PStr ''b'')] =
          Inr (PDict m) \<and>
       m = [(PInt 7, PStr ''b'')]"
  using Dict_resolve_entries [of int_str_dict "TName ''int''" "TName ''str''"
      "[(PStr ''7'', PStr ''a''), (PStr ''07'', PStr ''b'')]" "\<lambda>k. PInt 7" "\<lambda>v. v"]
  by (simp add: int_str_dict_def sample_func_def digit_val_def)

text \<open>
  Claim C9: the fixed-tuple delegate takes the first type argument \<open>T\<close> only, whatever
  the others are, and returns the generator without resolving anything; forcing the
  generator resolves every element against \<open>T\<close>, in the positions of the input.
\<close>

theorem Tuple_resolve_lazy_uniform:
  assumes "cls d = TGeneric n (T # rest)"
  shows "Tuple_resolve d data = Inr (PGen T data) \<and>
         py_list (func d) (PGen T data) = list_comp (func d T) data \<and>
         ((\<forall>x \<in> set data. func d T x = Inr (r x)) \<longrightarrow>
            py_list (func d) (PGen T data) = Inr (map r data))"
  using assms list_comp_ok [of data "func d T" r] by (simp add: Tuple_resolve_def)

theorem Tuple_resolve_lazy_uniform_witness:
  "Tuple_resolve int_str_tuple [PStr ''1'', PStr ''x''] =
     Inr (PGen (TName ''int'') [PStr ''1'', PStr ''x'']) \<and>
   isl (py_list (func int_str_tuple) (PGen (TName ''int'') [PStr ''1'', PStr ''x''])) \<and>
   py_list (func int_str_tuple) (PGen (TName ''int'') [PStr ''1'', PStr ''2'']) =
     Inr [PInt 1, PInt 2]"
  using Tuple_resolve_lazy_uniform [of int_str_tuple "''Tuple''" "TName ''int''"
      "[TName ''str'']" "[PStr ''1'', PStr ''x'']"]
    Tuple_resolve_lazy_uniform [of int_str_tuple "''Tuple''" "TName ''int''"
      "[TName ''str'']" "[PStr ''1'', PStr ''2'']"
      "\<lambda>v. if v = PStr ''1'' then PInt 1 else PInt 2"]
  by (simp add: int_str_tuple_def sample_func_def digit_val_def)

section \<open>Properties of the leaf delegates\<close>

text \<open>
  Claim C2, as stated: when the constructor of the scalar type, or the date parser,
  rejects the raw value, \<^verbatim>\<open>resolve\<close> raises \<^verbatim>\<open>ConversionError\<close> and no other exception.
  It does not: \<^verbatim>\<open>int\<close> rejects \<^verbatim>\<open>"abc"\<close> with a \<^verbatim>\<open>ValueError\<close>, and that is what the
  scalar delegate bound to \<^verbatim>\<open>int\<close> raises.
\<close>

theorem scalar_rejection_not_ConversionError:
  "isl (py_int (PStr ''abc'')) \<and>
   Builtin_resolve (\<lambda>c. py_int) int_delegate (PStr ''abc'') =
     Inl (ValueError [Lit ''invalid literal for int() with base 10: '', Fmt (PStr ''abc'')]) \<and>
   exn_class (projl (Builtin_resolve (\<lambda>c. py_int) int_delegate (PStr ''abc''))) \<noteq>
     ''ConversionError''"
  by (simp add: Builtin_resolve_def int_delegate_def digit_val_def)

text \<open>
  Claim C2, amended: the scalar delegate fails exactly when the value is not \<^verbatim>\<open>None\<close> and
  the constructor rejects it, and the datetime delegate exactly when the parser rejects
  it; in both the exception raised is the constructor's or the parser's own, unchanged.
\<close>

theorem leaf_rejection_propagates:
  "(Builtin_resolve call d data = Inl e \<longleftrightarrow> data \<noteq> PNone \<and> call (cls d) data = Inl e) \<and>
   (DateTime_resolve parse s = Inl e' \<longleftrightarrow> parse s = Inl e')"
  by (simp add: Builtin_resolve_def DateTime_resolve_def)

theorem leaf_rejection_propagates_witness:
  "Builtin_resolve (\<lambda>c. py_int) int_delegate (PStr ''abc'') =
     Inl (ValueError [Lit ''invalid literal for int() with base 10: '', Fmt (PStr ''abc'')]) \<and>
   DateTime_resolve sample_parse (PStr ''not-a-date'') =
     Inl (Exn ''ParserError'' [Lit ''Unknown string format: '', Fmt (PStr ''not-a-date'')])"
  using leaf_rejection_propagates [where call = "\<lambda>c. py_int" and d = int_delegate
      and data = "PStr ''abc''" and parse = sample_parse and s = "PStr ''not-a-date''"
      and e = "ValueError [Lit ''invalid literal for int() with base 10: '', Fmt (PStr ''abc'')]"
      and e' = "Exn ''ParserError'' [Lit ''Unknown string format: '', Fmt (PStr ''not-a-date'')]"]
  by (simp add: int_delegate_def digit_val_def sample_parse_def)

text \<open>\<^verbatim>\<open>None\<close> is returned as it is, whatever the scalar type.\<close>

lemma Builtin_resolve_None: "Builtin_resolve call d PNone = Inr PNone"
  by (simp add: Builtin_resolve_def)

section \<open>Properties of the composite delegate\<close>

text \<open>At every point of \<^verbatim>\<open>_resolve\<close>, \<^verbatim>\<open>args\<close> holds expected keys, each once.\<close>

lemma field_map_empty: "field_map ps []"
  by (simp add: field_map_def)

lemma field_map_update:
  "field_map ps args \<Longrightarrow> param_of ps key = Some t \<Longrightarrow> field_map ps (AList.update key r args)"
  by (auto simp: field_map_def expected_def AList.dom_update AList.distinct_update)

lemma field_map_dict_update:
  "field_map ps args \<Longrightarrow> field_map ps found \<Longrightarrow> field_map ps (dict_update args found)"
  by (auto simp: field_map_def dict_update_keys dict_update_distinct)

lemma resolve_field_map:
  "UserDefined_resolve_inner gip d c data = Inr r \<longrightarrow> field_map (gip c) r"
  "field_map (gip c) args \<longrightarrow> items_loop gip d c items args = Inr r \<longrightarrow> field_map (gip c) r"
  "field_map (gip c) args \<longrightarrow> walk_loop gip d c xs args = Inr r \<longrightarrow> field_map (gip c) r"
proof (induction gip d c data and gip d c items args and gip d c xs args
    arbitrary: r and r and r
    rule: UserDefined_resolve_inner_items_loop_walk_loop.induct)
  case (1 gip d c data)
  then show ?case by (simp add: field_map_empty)
next
  case (2 gip d c args)
  then show ?case by auto
next
  case (3 gip d c key "value" rest args)
  show ?case
  proof (intro impI)
    assume fm: "field_map (gip c) args"
      and res: "items_loop gip d c ((key, value) # rest) args = Inr r"
    show "field_map (gip c) r"
    proof (cases "param_of (gip c) key")
      case (Some t)
      with res obtain y where y: "func d t value = Inr y"
        and rest: "items_loop gip d c rest (AList.update key y args) = Inr r"
        by (auto split: sum.splits)
      from "3.IH"(7) [OF Some y] field_map_update [OF fm Some] rest show ?thesis by blast
    next
      case None
      with res have ign: "\<not> \<not> ignore_unknown_fields d" by (auto split: if_splits)
      show ?thesis
      proof (cases "walk_unknown_fields d")
        case False
        with res None ign have "items_loop gip d c rest args = Inr r" by simp
        with "3.IH"(6) [OF None ign False] fm show ?thesis by blast
      next
        case walk: True
        show ?thesis
        proof (cases "as_dict value")
          case (Some m)
          with res None ign walk obtain found where
            f: "UserDefined_resolve_inner gip d c m = Inr found"
            and rest: "items_loop gip d c rest (dict_update args found) = Inr r"
            by (auto split: sum.splits)
          from "3.IH"(4) [OF None ign walk Some] f have "field_map (gip c) found" by blast
          with fm have "field_map (gip c) (dict_update args found)"
            by (rule field_map_dict_update)
          with "3.IH"(5) [OF None ign walk Some f] rest show ?thesis by blast
        next
          case nd: None
          show ?thesis
          proof (cases "as_sequence value")
            case (Some xs)
            with res None ign walk nd obtain args' where
              w: "walk_loop gip d c xs args = Inr args'"
              and rest: "items_loop gip d c rest args' = Inr r"
              by (auto split: sum.splits)
            from "3.IH"(2) [OF None ign walk nd Some] fm w have "field_map (gip c) args'" by blast
            with "3.IH"(3) [OF None ign walk nd Some w] rest show ?thesis by blast
          next
            case ns: None
            with res None ign walk nd have "items_loop gip d c rest args = Inr r" by simp
            with "3.IH"(1) [OF None ign walk nd ns] fm show ?thesis by blast
          qed
        qed
      qed
    qed
  qed
next
  case (4 gip d c args)
  then show ?case by auto
next
  case (5 gip d c x xs args)
  show ?case
  proof (intro impI)
    assume fm: "field_map (gip c) args" and res: "walk_loop gip d c (x # xs) args = Inr r"
    show "field_map (gip c) r"
    proof (cases "as_dict x")
      case None
      with res have "walk_loop gip d c xs args = Inr r" by simp
      with "5.IH"(1) [OF None] fm show ?thesis by blast
    next
      case (Some m)
      with res obtain found where f: "UserDefined_resolve_inner gip d c m = Inr found"
        and rest: "walk_loop gip d c xs (dict_update args found) = Inr r"
        by (auto split: sum.splits)
      from "5.IH"(2) [OF Some] f have "field_map (gip c) found" by blast
      with fm have "field_map (gip c) (dict_update args found)"
        by (rule field_map_dict_update)
      with "5.IH"(3) [OF Some f] rest show ?thesis by blast
    qed
  qed
qed

text \<open>The loop over two lists in a row.\<close>

lemma items_loop_append:
  "items_loop gip d c (a @ b) args =
     (case items_loop gip d c a args of
        Inl e \<Rightarrow> Inl e
      | Inr args' \<Rightarrow> items_loop gip d c b args')"
proof (induction a arbitrary: args)
  case Nil
  then show ?case by simp
next
  case (Cons p a)
  obtain k v where p: "p = (k, v)" by (cases p)
  show ?case unfolding p append_Cons items_loop.simps
    by (simp add: Cons.IH split: option.splits sum.splits)
qed

text \<open>With unknown fields not ignored, the loop stops at the first unknown key.\<close>

lemma items_loop_unknown_fails:
  "\<not> ignore_unknown_fields d \<Longrightarrow> find (\<lambda>(k, v). param_of (gip c) k = None) data \<noteq> None \<Longrightarrow>
   isl (items_loop gip d c data args)"
proof (induction data arbitrary: args)
  case Nil
  then show ?case by simp
next
  case (Cons p data)
  obtain k v where p: "p = (k, v)" by (cases p)
  show ?case
  proof (cases "param_of (gip c) k")
    case None
    then show ?thesis using Cons.prems(1) p by simp
  next
    case (Some t)
    then have "find (\<lambda>(k, v). param_of (gip c) k = None) data \<noteq> None"
      using Cons.prems(2) p by simp
    from Cons.IH [OF Cons.prems(1) this] show ?thesis using p Some
      by (cases "func d t v") simp_all
  qed
qed

lemma items_loop_first_unknown:
  "\<not> ignore_unknown_fields d \<Longrightarrow>
   find (\<lambda>(k, v). param_of (gip c) k = None) data = Some (key, value) \<Longrightarrow>
   \<forall>(k, v) \<in> set (takeWhile (\<lambda>(k, v). param_of (gip c) k \<noteq> None) data).
      \<exists>t y. param_of (gip c) k = Some t \<and> func d t v = Inr y \<Longrightarrow>
   items_loop gip d c data args = Inl (unknown_field key value)"
proof (induction data arbitrary: args)
  case Nil
  then show ?case by simp
next
  case (Cons p data)
  obtain k v where p: "p = (k, v)" by (cases p)
  show ?case
  proof (cases "param_of (gip c) k")
    case None
    then show ?thesis using Cons.prems(1,2) p by simp
  next
    case (Some t)
    from Cons.prems(3) p Some obtain y where y: "func d t v = Inr y" by auto
    have f: "find (\<lambda>(k, v). param_of (gip c) k = None) data = Some (key, value)"
      using Cons.prems(2) p Some by simp
    have "\<forall>(k, v) \<in> set (takeWhile (\<lambda>(k, v). param_of (gip c) k \<noteq> None) data).
      \<exists>t y. param_of (gip c) k = Some t \<and> func d t v = Inr y"
      using Cons.prems(3) p Some by simp
    from Cons.IH [OF Cons.prems(1) f this] show ?thesis using p Some y by simp
  qed
qed

lemma strict_success_known:
  assumes "\<not> ignore_unknown_fields d" and "items_loop gip d c data args = Inr res"
  shows "\<forall>(k, v) \<in> set data. param_of (gip c) k \<noteq> None"
proof (rule ccontr)
  assume "\<not> (\<forall>(k, v) \<in> set data. param_of (gip c) k \<noteq> None)"
  then have "find (\<lambda>(k, v). param_of (gip c) k = None) data \<noteq> None"
    by (auto simp: find_None_iff)
  from items_loop_unknown_fails [where gip = gip and c = c and args = args, OF assms(1) this]
  show False using assms(2) by simp
qed

lemma strict_error:
  "\<not> ignore_unknown_fields d \<Longrightarrow> items_loop gip d c data args = Inl e \<Longrightarrow>
   (\<exists>(k, v) \<in> set data. \<exists>t. param_of (gip c) k = Some t \<and> func d t v = Inl e) \<or>
   (\<exists>(k, v) \<in> set data. param_of (gip c) k = None \<and> e = unknown_field k v)"
proof (induction data arbitrary: args)
  case Nil
  then show ?case by simp
next
  case (Cons p data)
  obtain k v where p: "p = (k, v)" by (cases p)
  show ?case
  proof (cases "param_of (gip c) k")
    case None
    with Cons.prems p have "e = unknown_field k v" by simp
    with None p show ?thesis by auto
  next
    case (Some t)
    show ?thesis
    proof (cases "func d t v")
      case (Inl e')
      with Cons.prems(2) p Some have "e' = e" by simp
      with Inl Some p show ?thesis by auto
    next
      case (Inr y)
      with Cons.prems(2) p Some have "items_loop gip d c data (AList.update k y args) = Inl e"
        by simp
      from Cons.IH [OF Cons.prems(1) this] show ?thesis by auto
    qed
  qed
qed

text \<open>The traversal keeps expected keys only, and keeps an input of expected keys whole.\<close>

lemma discovered_known:
  "\<forall>(k, v) \<in> set (discovered ps w data). param_of ps k \<noteq> None"
  "\<forall>(k, v) \<in> set (discovered_elems ps xs). param_of ps k \<noteq> None"
proof (induction ps w data and ps xs rule: discovered_discovered_elems.induct)
  case (2 ps w key "value" rest)
  show ?case
  proof (cases "param_of ps key")
    case (Some t)
    with "2.IH"(3) show ?thesis by auto
  next
    case None
    show ?thesis
    proof (cases w)
      case False
      with None "2.IH"(3) show ?thesis by auto
    next
      case True
      show ?thesis
      proof (cases "as_dict value")
        case (Some m)
        with None True "2.IH"(2) [OF None True Some] "2.IH"(3) show ?thesis by auto
      next
        case nd: None
        show ?thesis
        proof (cases "as_sequence value")
          case None
          with nd \<open>param_of ps key = None\<close> True "2.IH"(3) show ?thesis by auto
        next
          case (Some xs)
          with nd \<open>param_of ps key = None\<close> True
            "2.IH"(1) [OF \<open>param_of ps key = None\<close> True nd Some] "2.IH"(3)
          show ?thesis by auto
        qed
      qed
    qed
  qed
next
  case (4 ps x xs)
  show ?case
  proof (cases "as_dict x")
    case None
    with "4.IH"(2) show ?thesis by auto
  next
    case (Some m)
    with "4.IH"(1) [OF Some] "4.IH"(2) show ?thesis by auto
  qed
qed simp_all

lemma discovered_all_known:
  "\<forall>(k, v) \<in> set data. param_of ps k \<noteq> None \<Longrightarrow> discovered ps w data = data"
  by (induction data) auto

lemma discovered_elems_concat:
  "discovered_elems ps xs =
     concat (map (\<lambda>x. case as_dict x of Some m \<Rightarrow> discovered ps True m | None \<Rightarrow> []) xs)"
  by (induction xs) simp_all

text \<open>
  Storing into \<^verbatim>\<open>args\<close> what a nested call collected in a dict of its own leaves the same
  dict as storing each entry into \<^verbatim>\<open>args\<close> directly.
\<close>

lemma update_commute:
  "k \<in> fst ` set X \<Longrightarrow> k \<noteq> k' \<Longrightarrow>
   AList.update k v (AList.update k' v' X) = AList.update k' v' (AList.update k v X)"
  by (induction X) auto

lemma update_dict_update:
  "k \<in> fst ` set X \<Longrightarrow> k \<notin> fst ` set b \<Longrightarrow>
   AList.update k v (dict_update X b) = dict_update (AList.update k v X) b"
  unfolding dict_update_def
proof (induction b arbitrary: X)
  case Nil
  then show ?case by simp
next
  case (Cons p b)
  obtain k' v' where p: "p = (k', v')" by (cases p)
  from Cons.prems p have ne: "k \<noteq> k'" and nb: "k \<notin> fst ` set b" by auto
  have kin: "k \<in> fst ` set (AList.update k' v' X)"
    using Cons.prems(1) by (simp add: AList.dom_update)
  show ?case
    using Cons.IH [OF kin nb] update_commute [OF Cons.prems(1) ne, of v v'] p by simp
qed

lemma dict_update_update:
  "distinct (map fst b) \<Longrightarrow>
   dict_update a (AList.update k v b) = AList.update k v (dict_update a b)"
proof (induction b arbitrary: a)
  case Nil
  then show ?case by (simp add: dict_update_def)
next
  case (Cons p b)
  obtain k' v' where p: "p = (k', v')" by (cases p)
  show ?case
  proof (cases "k' = k")
    case True
    from Cons.prems p True have nb: "k \<notin> fst ` set b" by auto
    have kin: "k \<in> fst ` set (AList.update k v' a)" by (simp add: AList.dom_update)
    have "AList.update k v (dict_update (AList.update k v' a) b) =
          dict_update (AList.update k v (AList.update k v' a)) b"
      by (rule update_dict_update [OF kin nb])
    then show ?thesis using p True by (simp add: dict_update_def)
  next
    case False
    from Cons.prems have "distinct (map fst b)" by simp
    from Cons.IH [OF this, of "AList.update k' v' a"] show ?thesis
      using p False by (simp add: dict_update_def)
  qed
qed

lemma dict_update_assoc:
  "distinct (map fst b) \<Longrightarrow> dict_update a (dict_update b L) = dict_update (dict_update a b) L"
proof (induction L arbitrary: b)
  case Nil
  then show ?case by (simp add: dict_update_def)
next
  case (Cons p L)
  obtain k v where p: "p = (k, v)" by (cases p)
  have d: "distinct (map fst (AList.update k v b))"
    using Cons.prems by (rule AList.distinct_update)
  have "dict_update a (dict_update (AList.update k v b) L) =
        dict_update (dict_update a (AList.update k v b)) L"
    by (rule Cons.IH [OF d])
  also have "\<dots> = dict_update (AList.update k v (dict_update a b)) L"
    by (simp add: dict_update_update [OF Cons.prems])
  finally show ?case using p by (simp add: dict_update_def)
qed

lemma dict_update_lookup:
  "map_of (dict_update [] L) k = map_of (rev L) k"
  by (simp add: dict_update_map_of)

text \<open>
  The loop on entries whose keys are all expected: every value is resolved by \<open>func\<close>
  against the type of its key and stored, and the first error ends the loop.
\<close>

lemma flat_success:
  "\<forall>(k, v) \<in> set L. \<exists>t. param_of (gip c) k = Some t \<and> func d t v = Inr (r k v) \<Longrightarrow>
   items_loop gip d c L args = Inr (dict_update args (map (\<lambda>(k, v). (k, r k v)) L))"
proof (induction L arbitrary: args)
  case Nil
  then show ?case by (simp add: dict_update_def)
next
  case (Cons p L)
  obtain k v where p: "p = (k, v)" by (cases p)
  from Cons.prems p obtain t where t: "param_of (gip c) k = Some t"
    and y: "func d t v = Inr (r k v)" by auto
  from Cons.prems have "\<forall>(k, v) \<in> set L. \<exists>t. param_of (gip c) k = Some t \<and> func d t v = Inr (r k v)"
    by simp
  from Cons.IH [OF this, of "AList.update k (r k v) args"] show ?case
    using p t y by (simp add: dict_update_def)
qed

lemma flat_from_empty:
  "\<forall>(k, v) \<in> set L. param_of (gip c) k \<noteq> None \<Longrightarrow>
   items_loop gip d c L args =
     (case items_loop gip d c L [] of Inl e \<Rightarrow> Inl e | Inr f \<Rightarrow> Inr (dict_update args f))"
proof (induction L arbitrary: args)
  case Nil
  then show ?case by (simp add: dict_update_def)
next
  case (Cons p L)
  obtain k v where p: "p = (k, v)" by (cases p)
  from Cons.prems p obtain t where t: "param_of (gip c) k = Some t" by auto
  from Cons.prems have known: "\<forall>(k, v) \<in> set L. param_of (gip c) k \<noteq> None" by simp
  show ?case
  proof (cases "func d t v")
    case (Inl e)
    then show ?thesis using p t by simp
  next
    case (Inr y)
    have 1: "items_loop gip d c L (AList.update k y args) =
        (case items_loop gip d c L [] of Inl e \<Rightarrow> Inl e
         | Inr f \<Rightarrow> Inr (dict_update (AList.update k y args) f))"
      by (rule Cons.IH [OF known])
    have 2: "items_loop gip d c L [(k, y)] =
        (case items_loop gip d c L [] of Inl e \<Rightarrow> Inl e
         | Inr f \<Rightarrow> Inr (dict_update [(k, y)] f))"
      by (rule Cons.IH [OF known])
    have 3: "dict_update args (dict_update [(k, y)] f) = dict_update (AList.update k y args) f" for f
      using dict_update_assoc [of "[(k, y)]" args f] by (simp add: dict_update_def)
    show ?thesis using p t Inr 1 2 3 by (simp split: sum.splits)
  qed
qed

lemma flat_success_inv:
  "\<forall>(k, v) \<in> set L. param_of (gip c) k \<noteq> None \<Longrightarrow> items_loop gip d c L args = Inr res \<Longrightarrow>
   \<forall>(k, v) \<in> set L. \<exists>t y. param_of (gip c) k = Some t \<and> func d t v = Inr y"
proof (induction L arbitrary: args)
  case Nil
  then show ?case by simp
next
  case (Cons p L)
  obtain k v where p: "p = (k, v)" by (cases p)
  from Cons.prems p obtain t where t: "param_of (gip c) k = Some t" by auto
  from Cons.prems(2) p t obtain y where y: "func d t v = Inr y"
    and rest: "items_loop gip d c L (AList.update k y args) = Inr res"
    by (auto split: sum.splits)
  from Cons.prems have known: "\<forall>(k, v) \<in> set L. param_of (gip c) k \<noteq> None" by simp
  from Cons.IH [OF known rest] p t y show ?case by simp
qed

lemma flat_error:
  "\<forall>(k, v) \<in> set L. param_of (gip c) k \<noteq> None \<Longrightarrow> items_loop gip d c L args = Inl e \<Longrightarrow>
   \<exists>(k, v) \<in> set L. \<exists>t. param_of (gip c) k = Some t \<and> func d t v = Inl e"
proof (induction L arbitrary: args)
  case Nil
  then show ?case by simp
next
  case (Cons p L)
  obtain k v where p: "p = (k, v)" by (cases p)
  from Cons.prems p obtain t where t: "param_of (gip c) k = Some t" by auto
  from Cons.prems have known: "\<forall>(k, v) \<in> set L. param_of (gip c) k \<noteq> None" by simp
  show ?case
  proof (cases "func d t v")
    case (Inl e')
    with Cons.prems(2) p t have "e' = e" by simp
    with Inl p t show ?thesis by auto
  next
    case (Inr y)
    with Cons.prems(2) p t have "items_loop gip d c L (AList.update k y args) = Inl e" by simp
    from Cons.IH [OF known this] show ?thesis by auto
  qed
qed

lemma first_failure:
  assumes "\<forall>(k', v') \<in> set pre. \<exists>t'. param_of (gip c) k' = Some t' \<and> func d t' v' = Inr (r k' v')"
    and "param_of (gip c) k = Some t" and "func d t v = Inl e"
  shows "items_loop gip d c (pre @ (k, v) # post) args = Inl e"
  using flat_success [where gip = gip and c = c and d = d and r = r, OF assms(1), of args] assms(2,3)
  by (simp add: items_loop_append)

lemma first_failure_any:
  assumes "\<forall>(k', v') \<in> set pre. \<exists>t' y. param_of (gip c) k' = Some t' \<and> func d t' v' = Inr y"
    and "param_of (gip c) k = Some t" and "func d t v = Inl e"
  shows "items_loop gip d c (pre @ (k, v) # post) args = Inl e"
proof -
  let ?r = "\<lambda>k v. projr (func d (the (param_of (gip c) k)) v)"
  from assms(1)
  have "\<forall>(k', v') \<in> set pre. \<exists>t'. param_of (gip c) k' = Some t' \<and> func d t' v' = Inr (?r k' v')"
    by fastforce
  from first_failure [where gip = gip and c = c and d = d and r = ?r, OF this assms(2,3)]
  show ?thesis .
qed

text \<open>
  With unknown fields ignored, the loops of \<^verbatim>\<open>_resolve\<close> do on \<^verbatim>\<open>args\<close> what the plain
  loop does on the entries of the traversal.
\<close>

lemma walk_refines_discovered:
  "ignore_unknown_fields d \<longrightarrow>
     UserDefined_resolve_inner gip d c data =
       items_loop gip d c (discovered (gip c) (walk_unknown_fields d) data) []"
  "ignore_unknown_fields d \<longrightarrow>
     items_loop gip d c items args =
       items_loop gip d c (discovered (gip c) (walk_unknown_fields d) items) args"
  "ignore_unknown_fields d \<longrightarrow> walk_unknown_fields d \<longrightarrow>
     walk_loop gip d c xs args = items_loop gip d c (discovered_elems (gip c) xs) args"
proof (induction gip d c data and gip d c items args and gip d c xs args
    rule: UserDefined_resolve_inner_items_loop_walk_loop.induct)
  case (1 gip d c data)
  then show ?case by simp
next
  case (2 gip d c args)
  then show ?case by simp
next
  case (3 gip d c key "value" rest args)
  show ?case
  proof
    assume ign: "ignore_unknown_fields d"
    then have ign': "\<not> \<not> ignore_unknown_fields d" by simp
    let ?w = "walk_unknown_fields d"
    show "items_loop gip d c ((key, value) # rest) args =
            items_loop gip d c (discovered (gip c) ?w ((key, value) # rest)) args"
    proof (cases "param_of (gip c) key")
      case (Some t)
      show ?thesis
      proof (cases "func d t value")
        case (Inl e)
        with Some show ?thesis by simp
      next
        case (Inr y)
        from "3.IH"(7) [OF Some Inr] ign Some Inr show ?thesis by simp
      qed
    next
      case None
      show ?thesis
      proof (cases ?w)
        case False
        from "3.IH"(6) [OF None ign' False] ign None False show ?thesis by simp
      next
        case walk: True
        show ?thesis
        proof (cases "as_dict value")
          case (Some m)
          let ?dm = "discovered (gip c) ?w m"
          have known: "\<forall>(k, v) \<in> set ?dm. param_of (gip c) k \<noteq> None"
            by (rule discovered_known(1))
          have inner: "UserDefined_resolve_inner gip d c m = items_loop gip d c ?dm []"
            using "3.IH"(4) [OF None ign' walk Some] ign by simp
          have lhs: "items_loop gip d c ((key, value) # rest) args =
              (case UserDefined_resolve_inner gip d c m of
                 Inl e \<Rightarrow> Inl e
               | Inr found \<Rightarrow> items_loop gip d c rest (dict_update args found))"
            using None ign walk Some by simp
          have rhs: "items_loop gip d c (discovered (gip c) ?w ((key, value) # rest)) args =
              (case items_loop gip d c ?dm [] of
                 Inl e \<Rightarrow> Inl e
               | Inr found \<Rightarrow>
                   items_loop gip d c (discovered (gip c) ?w rest) (dict_update args found))"
            using None walk Some flat_from_empty [where gip = gip and c = c and d = d, OF known, of args]
            by (simp add: items_loop_append split: sum.splits)
          show ?thesis
          proof (cases "UserDefined_resolve_inner gip d c m")
            case (Inl e)
            with lhs rhs inner show ?thesis by simp
          next
            case (Inr found)
            from "3.IH"(5) [OF None ign' walk Some Inr] ign
            have "items_loop gip d c rest (dict_update args found) =
                  items_loop gip d c (discovered (gip c) ?w rest) (dict_update args found)"
              by simp
            with lhs rhs inner Inr show ?thesis by simp
          qed
        next
          case nd: None
          show ?thesis
          proof (cases "as_sequence value")
            case (Some xs)
            have w: "walk_loop gip d c xs args = items_loop gip d c (discovered_elems (gip c) xs) args"
              using "3.IH"(2) [OF None ign' walk nd Some] ign walk by simp
            show ?thesis
            proof (cases "walk_loop gip d c xs args")
              case (Inl e)
              with w have "items_loop gip d c (discovered_elems (gip c) xs) args = Inl e" by simp
              with Inl None ign walk nd Some show ?thesis
                by (simp add: items_loop_append)
            next
              case (Inr args')
              from "3.IH"(3) [OF None ign' walk nd Some Inr] ign
              have r: "items_loop gip d c rest args' =
                    items_loop gip d c (discovered (gip c) ?w rest) args'" by simp
              from w Inr have "items_loop gip d c (discovered_elems (gip c) xs) args = Inr args'"
                by simp
              with r Inr None ign walk nd Some show ?thesis
                by (simp add: items_loop_append)
            qed
          next
            case ns: None
            from "3.IH"(1) [OF None ign' walk nd ns] ign None walk nd ns show ?thesis by simp
          qed
        qed
      qed
    qed
  qed
next
  case (4 gip d c args)
  then show ?case by simp
next
  case (5 gip d c x xs args)
  show ?case
  proof (intro impI)
    assume ign: "ignore_unknown_fields d" and walk: "walk_unknown_fields d"
    show "walk_loop gip d c (x # xs) args = items_loop gip d c (discovered_elems (gip c) (x # xs)) args"
    proof (cases "as_dict x")
      case None
      with "5.IH"(1) [OF None] ign walk show ?thesis by simp
    next
      case (Some m)
      let ?dm = "discovered (gip c) True m"
      have known: "\<forall>(k, v) \<in> set ?dm. param_of (gip c) k \<noteq> None"
        by (rule discovered_known(1))
      have inner: "UserDefined_resolve_inner gip d c m = items_loop gip d c ?dm []"
        using "5.IH"(2) [OF Some] ign walk by simp
      have rhs: "items_loop gip d c (discovered_elems (gip c) (x # xs)) args =
          (case items_loop gip d c ?dm [] of
             Inl e \<Rightarrow> Inl e
           | Inr found \<Rightarrow>
               items_loop gip d c (discovered_elems (gip c) xs) (dict_update args found))"
        using Some flat_from_empty [where gip = gip and c = c and d = d, OF known, of args]
        by (simp add: items_loop_append split: sum.splits)
      show ?thesis
      proof (cases "UserDefined_resolve_inner gip d c m")
        case (Inl e)
        with rhs inner Some show ?thesis by simp
      next
        case (Inr found)
        from "5.IH"(3) [OF Some Inr] ign walk
        have "walk_loop gip d c xs (dict_update args found) =
              items_loop gip d c (discovered_elems (gip c) xs) (dict_update args found)" by simp
        with rhs inner Inr Some show ?thesis by simp
      qed
    qed
  qed
qed

lemma resolve_as_discovered:
  assumes "ignore_unknown_fields d \<or> (\<forall>(k, v) \<in> set data. param_of (gip c) k \<noteq> None)"
  shows "items_loop gip d c data args =
         items_loop gip d c (discovered (gip c) (walk_unknown_fields d) data) args"
proof (cases "ignore_unknown_fields d")
  case True
  then show ?thesis using walk_refines_discovered(2) [of d gip c data args] by simp
next
  case False
  with assms have "\<forall>(k, v) \<in> set data. param_of (gip c) k \<noteq> None" by simp
  then show ?thesis by (simp add: discovered_all_known)
qed

text \<open>
  Claim C1, as stated: \<^verbatim>\<open>resolve\<close> builds an instance of the composite type from the
  field map and returns the instance, not the field map. It returns the field map: for
  \<^verbatim>\<open>Named\<close> and \<^verbatim>\<open>{"name": "x"}\<close> the result is the dict \<^verbatim>\<open>{"name": "x"}\<close>, whose type is
  \<^verbatim>\<open>dict\<close>, and not the instance \<^verbatim>\<open>Named(name="x")\<close>.
\<close>

theorem resolve_returns_dict_not_instance:
  "UserDefined_resolve sample_gip named_walk [(PStr ''name'', PStr ''x'')] =
     Inr (PDict [(PStr ''name'', PStr ''x'')]) \<and>
   PDict [(PStr ''name'', PStr ''x'')] \<noteq> PObj ''Named'' [(PStr ''name'', PStr ''x'')] \<and>
   py_type (PDict [(PStr ''name'', PStr ''x'')]) \<noteq> ''Named''"
  by (simp add: UserDefined_resolve_def named_walk_def sample_gip_def sample_func_def)

text \<open>
  Claim C1, amended: whenever \<^verbatim>\<open>resolve\<close> returns, what it returns is the accumulated
  field map itself and no instance: a dict whose keys are expected parameters of the
  type, each once, holding for every entry of the traversal the value that \<open>func\<close>
  resolved from it against the type of its key, stored in the order of the traversal.
\<close>

theorem UserDefined_resolve_returns_field_map:
  assumes "UserDefined_resolve gip d data = Inr r"
  shows "py_type r = ''dict'' \<and>
         (\<exists>args res.
            r = PDict args \<and>
            UserDefined_resolve_inner gip d (cls d) data = Inr args \<and>
            field_map (gip (cls d)) args \<and>
            (\<forall>(k, v) \<in> set (discovered (gip (cls d)) (walk_unknown_fields d) data).
                \<exists>t. param_of (gip (cls d)) k = Some t \<and> func d t v = Inr (res k v)) \<and>
            args = dict_update []
                     (map (\<lambda>(k, v). (k, res k v))
                        (discovered (gip (cls d)) (walk_unknown_fields d) data)))"
proof -
  let ?ps = "gip (cls d)"
  let ?D = "discovered ?ps (walk_unknown_fields d) data"
  let ?res = "\<lambda>k v. projr (func d (the (param_of ?ps k)) v)"
  from assms obtain args where a: "UserDefined_resolve_inner gip d (cls d) data = Inr args"
    and r: "r = PDict args"
    by (auto simp: UserDefined_resolve_def split: sum.splits)
  from a have loop: "items_loop gip d (cls d) data [] = Inr args" by simp
  from resolve_field_map(1) [of gip d "cls d" data args] a have fm: "field_map ?ps args"
    by simp
  have "ignore_unknown_fields d \<or> (\<forall>(k, v) \<in> set data. param_of ?ps k \<noteq> None)"
    using strict_success_known [where gip = gip and c = "cls d" and d = d, OF _ loop] by blast
  from resolve_as_discovered [where gip = gip and c = "cls d" and d = d and args = "[]", OF this] loop
  have flat: "items_loop gip d (cls d) ?D [] = Inr args" by simp
  have known: "\<forall>(k, v) \<in> set ?D. param_of ?ps k \<noteq> None" by (rule discovered_known(1))
  from flat_success_inv [where gip = gip and c = "cls d" and d = d, OF known flat]
  have ok: "\<forall>(k, v) \<in> set ?D. \<exists>t. param_of ?ps k = Some t \<and> func d t v = Inr (?res k v)"
    by fastforce
  from flat_success [where gip = gip and c = "cls d" and d = d and r = ?res, OF ok, of "[]"] flat
  have "args = dict_update [] (map (\<lambda>(k, v). (k, ?res k v)) ?D)" by simp
  with r a fm ok show ?thesis by (intro conjI exI [of _ args] exI [of _ ?res]) simp_all
qed

theorem UserDefined_resolve_returns_field_map_witness:
  "py_type (PDict [(PStr ''name'', PStr ''x''), (PStr ''age'', PInt 3)]) = ''dict'' \<and>
   (\<exists>args res.
      PDict [(PStr ''name'', PStr ''x''), (PStr ''age'', PInt 3)] = PDict args \<and>
      UserDefined_resolve_inner sample_gip person_ignore (cls person_ignore)
        [(PStr ''name'', PStr ''x''), (PStr ''other'', PInt 1), (PStr ''age'', PStr ''3'')] =
        Inr args \<and>
      field_map (sample_gip (cls person_ignore)) args \<and>
      func person_ignore (TName ''int'') (PStr ''3'') = Inr (res (PStr ''age'') (PStr ''3'')) \<and>
      args = dict_update [] [(PStr ''name'', res (PStr ''name'') (PStr ''x'')),
                             (PStr ''age'', res (PStr ''age'') (PStr ''3''))])"
  using UserDefined_resolve_returns_field_map [of sample_gip person_ignore
      "[(PStr ''name'', PStr ''x''), (PStr ''other'', PInt 1), (PStr ''age'', PStr ''3'')]"
      "PDict [(PStr ''name'', PStr ''x''), (PStr ''age'', PInt 3)]"]
  by (simp add: UserDefined_resolve_def person_ignore_def sample_gip_def sample_func_def
      digit_val_def) blast

text \<open>
  Claim C3, as stated: with \<^verbatim>\<open>ignore_unknown_fields\<close> false, every input with a key that
  is not an expected parameter fails with the \<^verbatim>\<open>UnknownFieldError\<close> naming that field and
  its value. Not every one: in \<^verbatim>\<open>{"age": "abc", "bogus": 1}\<close> the expected field
  \<^verbatim>\<open>age\<close> comes first and does not resolve, and the \<^verbatim>\<open>ValueError\<close> of the nested call
  is what \<^verbatim>\<open>resolve\<close> raises.
\<close>

theorem unknown_field_error_preempted:
  "\<not> ignore_unknown_fields person_strict \<and>
   find (\<lambda>(k, v). param_of (sample_gip (cls person_strict)) k = None)
     [(PStr ''age'', PStr ''abc''), (PStr ''bogus'', PInt 1)] = Some (PStr ''bogus'', PInt 1) \<and>
   UserDefined_resolve sample_gip person_strict
     [(PStr ''age'', PStr ''abc''), (PStr ''bogus'', PInt 1)] =
     Inl (ValueError [Lit ''invalid literal for int() with base 10: '', Fmt (PStr ''abc'')]) \<and>
   exn_class (projl (UserDefined_resolve sample_gip person_strict
     [(PStr ''age'', PStr ''abc''), (PStr ''bogus'', PInt 1)])) \<noteq> ''UnknownFieldError''"
  by (simp add: UserDefined_resolve_def person_strict_def sample_gip_def sample_func_def
      digit_val_def)

text \<open>
  Claim C3, amended: with \<^verbatim>\<open>ignore_unknown_fields\<close> false, an input with a key that is
  not an expected parameter always fails, however many expected fields it also has. When
  the expected fields met before the first unknown key all resolve, the failure is the
  \<^verbatim>\<open>UnknownFieldError\<close> naming that key and its value; when one of them does not, the
  failure is the error of the first that does not, as the nested call raised it.
\<close>

theorem unknown_field_fails:
  assumes "\<not> ignore_unknown_fields d"
    and "find (\<lambda>(k, v). param_of (gip (cls d)) k = None) data = Some (key, value)"
  shows "isl (UserDefined_resolve gip d data) \<and>
         ((\<forall>(k, v) \<in> set (takeWhile (\<lambda>(k, v). param_of (gip (cls d)) k \<noteq> None) data).
              \<exists>t y. param_of (gip (cls d)) k = Some t \<and> func d t v = Inr y) \<longrightarrow>
          UserDefined_resolve gip d data = Inl (unknown_field key value)) \<and>
         (\<forall>pre k v post t e.
            takeWhile (\<lambda>(k, v). param_of (gip (cls d)) k \<noteq> None) data = pre @ (k, v) # post \<and>
            (\<forall>(k', v') \<in> set pre.
               \<exists>t' y. param_of (gip (cls d)) k' = Some t' \<and> func d t' v' = Inr y) \<and>
            param_of (gip (cls d)) k = Some t \<and> func d t v = Inl e \<longrightarrow>
            UserDefined_resolve gip d data = Inl e)"
proof (intro conjI impI allI)
  from assms(2) have "find (\<lambda>(k, v). param_of (gip (cls d)) k = None) data \<noteq> None" by simp
  from items_loop_unknown_fails [where gip = gip and c = "cls d" and args = "[]", OF assms(1) this]
  show "isl (UserDefined_resolve gip d data)"
    by (cases "items_loop gip d (cls d) data []") (simp_all add: UserDefined_resolve_def)
next
  assume "\<forall>(k, v) \<in> set (takeWhile (\<lambda>(k, v). param_of (gip (cls d)) k \<noteq> None) data).
              \<exists>t y. param_of (gip (cls d)) k = Some t \<and> func d t v = Inr y"
  from items_loop_first_unknown [where gip = gip and c = "cls d" and args = "[]", OF assms(1,2) this]
  show "UserDefined_resolve gip d data = Inl (unknown_field key value)"
    by (simp add: UserDefined_resolve_def)
next
  fix pre k v post t e
  let ?known = "\<lambda>(k, v). param_of (gip (cls d)) k \<noteq> None"
  assume a: "takeWhile ?known data = pre @ (k, v) # post \<and>
            (\<forall>(k', v') \<in> set pre.
               \<exists>t' y. param_of (gip (cls d)) k' = Some t' \<and> func d t' v' = Inr y) \<and>
            param_of (gip (cls d)) k = Some t \<and> func d t v = Inl e"
  have "data = takeWhile ?known data @ dropWhile ?known data" by simp
  with a have split: "data = pre @ (k, v) # (post @ dropWhile ?known data)" by simp
  from a have "items_loop gip d (cls d) (pre @ (k, v) # (post @ dropWhile ?known data)) [] = Inl e"
    using first_failure_any [where gip = gip and c = "cls d" and d = d and pre = pre
        and k = k and v = v and t = t and e = e] by blast
  with split have "items_loop gip d (cls d) data [] = Inl e" by simp
  then show "UserDefined_resolve gip d data = Inl e"
    by (simp add: UserDefined_resolve_def)
qed

theorem unknown_field_fails_witness:
  "isl (UserDefined_resolve sample_gip person_strict
          [(PStr ''name'', PStr ''x''), (PStr ''bogus'', PInt 1), (PStr ''age'', PInt 3)]) \<and>
   UserDefined_resolve sample_gip person_strict
          [(PStr ''name'', PStr ''x''), (PStr ''bogus'', PInt 1), (PStr ''age'', PInt 3)] =
     Inl (unknown_field (PStr ''bogus'') (PInt 1)) \<and>
   UserDefined_resolve sample_gip person_strict
          [(PStr ''name'', PStr ''x''), (PStr ''age'', PStr ''old''), (PStr ''bogus'', PInt 1)] =
     Inl (ValueError [Lit ''invalid literal for int() with base 10: '', Fmt (PStr ''old'')])"
  using unknown_field_fails [of person_strict sample_gip
      "[(PStr ''name'', PStr ''x''), (PStr ''bogus'', PInt 1), (PStr ''age'', PInt 3)]"
      "PStr ''bogus''" "PInt 1"]
    unknown_field_fails [of person_strict sample_gip
      "[(PStr ''name'', PStr ''x''), (PStr ''age'', PStr ''old''), (PStr ''bogus'', PInt 1)]"
      "PStr ''bogus''" "PInt 1", THEN conjunct2, THEN conjunct2, rule_format,
      where pre = "[(PStr ''name'', PStr ''x'')]" and k = "PStr ''age''" and v = "PStr ''old''"
      and post = "[]" and t = "TName ''int''"
      and e = "ValueError [Lit ''invalid literal for int() with base 10: '', Fmt (PStr ''old'')]"]
  by (simp add: person_strict_def sample_gip_def sample_func_def digit_val_def)

text \<open>
  Claim C4: with both policies on,
  \<^item> the entries found under an unknown key are those found in its value when it is a
    mapping, searched by the same rule against the same type; those found in each
    mapping among its elements, in order, when it is a list, set or tuple; none
    otherwise, the value being dropped;
  \<^item> when every entry found resolves, \<^verbatim>\<open>resolve\<close> returns the resolved entries stored
    in the order of the traversal: the keys are the keys found, each once, and a key
    found several times holds the value resolved from the last entry found with it;
  \<^item> when one does not resolve, \<^verbatim>\<open>resolve\<close> raises the error of the first that does
    not.
  The witness is the example of the claim, \<^verbatim>\<open>{"wrapper": {"name": "x"}}\<close> against
  \<^verbatim>\<open>Named\<close>, an input against \<^verbatim>\<open>Person\<close> that finds \<^verbatim>\<open>name\<close> twice and \<^verbatim>\<open>age\<close> once,
  and one in which a nested \<^verbatim>\<open>age\<close> does not resolve.
\<close>

theorem walk_unknown_fields_semantics:
  assumes ign: "ignore_unknown_fields d" and walk: "walk_unknown_fields d"
  shows
   "(param_of (gip (cls d)) key = None \<longrightarrow>
       discovered (gip (cls d)) True ((key, value) # rest) =
         (case as_dict value of
            Some m \<Rightarrow> discovered (gip (cls d)) True m
          | None \<Rightarrow>
              (case as_sequence value of
                 Some xs \<Rightarrow>
                   concat (map (\<lambda>x. case as_dict x of
                                       Some m \<Rightarrow> discovered (gip (cls d)) True m
                                     | None \<Rightarrow> []) xs)
               | None \<Rightarrow> []))
         @ discovered (gip (cls d)) True rest) \<and>
    ((\<forall>(k, v) \<in> set (discovered (gip (cls d)) True data).
         \<exists>t. param_of (gip (cls d)) k = Some t \<and> func d t v = Inr (r k v)) \<longrightarrow>
       (\<exists>args. UserDefined_resolve gip d data = Inr (PDict args) \<and>
          args = dict_update [] (map (\<lambda>(k, v). (k, r k v)) (discovered (gip (cls d)) True data)) \<and>
          distinct (map fst args) \<and>
          fst ` set args = fst ` set (discovered (gip (cls d)) True data) \<and>
          (\<forall>k. map_of args k =
                 map_of (rev (map (\<lambda>(k, v). (k, r k v)) (discovered (gip (cls d)) True data))) k))) \<and>
    (\<forall>pre k v post t e.
        discovered (gip (cls d)) True data = pre @ (k, v) # post \<and>
        (\<forall>(k', v') \<in> set pre.
            \<exists>t'. param_of (gip (cls d)) k' = Some t' \<and> func d t' v' = Inr (r k' v')) \<and>
        param_of (gip (cls d)) k = Some t \<and> func d t v = Inl e \<longrightarrow>
        UserDefined_resolve gip d data = Inl e)"
proof (intro conjI impI allI)
  let ?ps = "gip (cls d)"
  let ?D = "discovered ?ps True data"
  have ref: "items_loop gip d (cls d) data [] = items_loop gip d (cls d) ?D []"
    using resolve_as_discovered [where gip = gip and c = "cls d" and d = d and data = data and args = "[]"]
      ign walk by simp
  {
    assume "param_of ?ps key = None"
    then show "discovered ?ps True ((key, value) # rest) =
         (case as_dict value of
            Some m \<Rightarrow> discovered ?ps True m
          | None \<Rightarrow>
              (case as_sequence value of
                 Some xs \<Rightarrow>
                   concat (map (\<lambda>x. case as_dict x of
                                       Some m \<Rightarrow> discovered ?ps True m
                                     | None \<Rightarrow> []) xs)
               | None \<Rightarrow> []))
         @ discovered ?ps True rest"
      by (simp add: discovered_elems_concat split: option.splits)
  }
  {
    assume ok: "\<forall>(k, v) \<in> set ?D. \<exists>t. param_of ?ps k = Some t \<and> func d t v = Inr (r k v)"
    let ?args = "dict_update [] (map (\<lambda>(k, v). (k, r k v)) ?D)"
    have res: "UserDefined_resolve gip d data = Inr (PDict ?args)"
      using ref flat_success [where gip = gip and c = "cls d" and d = d and r = r, OF ok, of "[]"]
      by (simp add: UserDefined_resolve_def)
    have dist: "distinct (map fst ?args)" by (rule dict_update_distinct) simp
    have keys: "fst ` set ?args = fst ` set ?D" by (force simp: dict_update_keys)
    have look: "\<forall>k. map_of ?args k = map_of (rev (map (\<lambda>(k, v). (k, r k v)) ?D)) k"
      by (simp add: dict_update_lookup)
    from res dist keys look
    show "\<exists>args. UserDefined_resolve gip d data = Inr (PDict args) \<and>
          args = ?args \<and> distinct (map fst args) \<and> fst ` set args = fst ` set ?D \<and>
          (\<forall>k. map_of args k = map_of (rev (map (\<lambda>(k, v). (k, r k v)) ?D)) k)"
      by blast
  }
  {
    fix pre k v post t e
    assume a: "?D = pre @ (k, v) # post \<and>
        (\<forall>(k', v') \<in> set pre. \<exists>t'. param_of ?ps k' = Some t' \<and> func d t' v' = Inr (r k' v')) \<and>
        param_of ?ps k = Some t \<and> func d t v = Inl e"
    then have "items_loop gip d (cls d) ?D [] = Inl e"
      using first_failure [where gip = gip and c = "cls d" and d = d and r = r and pre = pre
          and k = k and v = v and t = t and e = e and post = post and args = "[]"]
      by simp
    with ref show "UserDefined_resolve gip d data = Inl e"
      by (simp add: UserDefined_resolve_def)
  }
qed

theorem walk_unknown_fields_semantics_witness:
  "UserDefined_resolve sample_gip named_walk
     [(PStr ''wrapper'', PDict [(PStr ''name'', PStr ''x'')])] =
     Inr (PDict [(PStr ''name'', PStr ''x'')]) \<and>
   UserDefined_resolve sample_gip person_walk
     [(PStr ''w'', PDict [(PStr ''name'', PStr ''x''), (PStr ''age'', PStr ''3''),
                          (PStr ''v'', PList [PInt 5, PDict [(PStr ''name'', PStr ''y'')]])]),
      (PStr ''z'', PInt 7)] =
     Inr (PDict [(PStr ''name'', PStr ''y''), (PStr ''age'', PInt 3)]) \<and>
   UserDefined_resolve sample_gip person_walk
     [(PStr ''w'', PDict [(PStr ''name'', PStr ''x''), (PStr ''age'', PStr ''old'')]),
      (PStr ''name'', PStr ''y'')] =
     Inl (ValueError [Lit ''invalid literal for int() with base 10: '', Fmt (PStr ''old'')])"
  using
    walk_unknown_fields_semantics [where d = named_walk and gip = sample_gip
      and data = "[(PStr ''wrapper'', PDict [(PStr ''name'', PStr ''x'')])]"
      and r = "\<lambda>k v. v"]
    walk_unknown_fields_semantics [where d = person_walk and gip = sample_gip
      and data = "[(PStr ''w'', PDict [(PStr ''name'', PStr ''x''), (PStr ''age'', PStr ''3''),
                          (PStr ''v'', PList [PInt 5, PDict [(PStr ''name'', PStr ''y'')]])]),
                   (PStr ''z'', PInt 7)]"
      and r = "\<lambda>k v. if k = PStr ''age'' then PInt 3 else v"]
    walk_unknown_fields_semantics [where d = person_walk and gip = sample_gip
      and data = "[(PStr ''w'', PDict [(PStr ''name'', PStr ''x''), (PStr ''age'', PStr ''old'')]),
                   (PStr ''name'', PStr ''y'')]"
      and r = "\<lambda>k v. v", THEN conjunct2, THEN conjunct2, rule_format,
      where pre = "[(PStr ''name'', PStr ''x'')]" and k = "PStr ''age''" and v = "PStr ''old''"
      and post = "[(PStr ''name'', PStr ''y'')]" and t = "TName ''int''"
      and e = "ValueError [Lit ''invalid literal for int() with base 10: '', Fmt (PStr ''old'')]"]
  by (simp add: named_walk_def person_walk_def sample_gip_def sample_func_def digit_val_def
      dict_update_def)

text \<open>The empty mapping resolves to the empty field map.\<close>

lemma resolve_empty: "UserDefined_resolve gip d [] = Inr (PDict [])"
  by (simp add: UserDefined_resolve_def)

text \<open>
  Claim C10: \<^verbatim>\<open>resolve\<close> never checks that every expected parameter was given.
  \<^item> The empty mapping resolves to the empty field map, whatever the policies are.
  \<^item> Whatever the policies are, an input whose unknown keys are ignored, or that has
    none, and whose entries of the traversal resolve, gives the field map of exactly
    those entries: an expected parameter that the traversal does not meet is absent
    from the result, and nothing is raised for it.
  \<^item> Whatever \<^verbatim>\<open>resolve\<close> raises is an error that \<open>func\<close> raised on an entry of the
    input, or the \<^verbatim>\<open>UnknownFieldError\<close> of an unknown key that is not ignored; there is
    no error for a missing field at this layer.
\<close>

theorem missing_fields_not_checked:
  "UserDefined_resolve gip d [] = Inr (PDict []) \<and>
   ((ignore_unknown_fields d \<or> (\<forall>(k, v) \<in> set data. param_of (gip (cls d)) k \<noteq> None)) \<and>
    (\<forall>(k, v) \<in> set (discovered (gip (cls d)) (walk_unknown_fields d) data).
        \<exists>t. param_of (gip (cls d)) k = Some t \<and> func d t v = Inr (r k v)) \<longrightarrow>
    (\<exists>args. UserDefined_resolve gip d data = Inr (PDict args) \<and>
       args = dict_update []
                (map (\<lambda>(k, v). (k, r k v))
                   (discovered (gip (cls d)) (walk_unknown_fields d) data)) \<and>
       fst ` set args = fst ` set (discovered (gip (cls d)) (walk_unknown_fields d) data))) \<and>
   (UserDefined_resolve gip d data = Inl e \<longrightarrow>
      (\<exists>(k, v) \<in> set (if ignore_unknown_fields d
                       then discovered (gip (cls d)) (walk_unknown_fields d) data else data).
          \<exists>t. param_of (gip (cls d)) k = Some t \<and> func d t v = Inl e) \<or>
      (\<not> ignore_unknown_fields d \<and>
       (\<exists>(k, v) \<in> set data. param_of (gip (cls d)) k = None \<and> e = unknown_field k v)))"
proof (intro conjI impI)
  show "UserDefined_resolve gip d [] = Inr (PDict [])" by (rule resolve_empty)
next
  let ?ps = "gip (cls d)"
  let ?D = "discovered ?ps (walk_unknown_fields d) data"
  assume a: "(ignore_unknown_fields d \<or> (\<forall>(k, v) \<in> set data. param_of ?ps k \<noteq> None)) \<and>
    (\<forall>(k, v) \<in> set ?D. \<exists>t. param_of ?ps k = Some t \<and> func d t v = Inr (r k v))"
  then have mode: "ignore_unknown_fields d \<or> (\<forall>(k, v) \<in> set data. param_of ?ps k \<noteq> None)"
    and ok: "\<forall>(k, v) \<in> set ?D. \<exists>t. param_of ?ps k = Some t \<and> func d t v = Inr (r k v)"
    by blast+
  let ?args = "dict_update [] (map (\<lambda>(k, v). (k, r k v)) ?D)"
  have "items_loop gip d (cls d) data [] = Inr ?args"
    using resolve_as_discovered [where gip = gip and c = "cls d" and d = d and args = "[]", OF mode]
      flat_success [where gip = gip and c = "cls d" and d = d and r = r, OF ok, of "[]"]
    by simp
  then have res: "UserDefined_resolve gip d data = Inr (PDict ?args)"
    by (simp add: UserDefined_resolve_def)
  have keys: "fst ` set ?args = fst ` set ?D" by (force simp: dict_update_keys)
  from res keys
  show "\<exists>args. UserDefined_resolve gip d data = Inr (PDict args) \<and> args = ?args \<and>
          fst ` set args = fst ` set ?D" by blast
next
  let ?ps = "gip (cls d)"
  let ?D = "discovered ?ps (walk_unknown_fields d) data"
  assume "UserDefined_resolve gip d data = Inl e"
  then have err: "items_loop gip d (cls d) data [] = Inl e"
    by (simp add: UserDefined_resolve_def split: sum.splits)
  show "(\<exists>(k, v) \<in> set (if ignore_unknown_fields d then ?D else data).
          \<exists>t. param_of ?ps k = Some t \<and> func d t v = Inl e) \<or>
      (\<not> ignore_unknown_fields d \<and>
       (\<exists>(k, v) \<in> set data. param_of ?ps k = None \<and> e = unknown_field k v))"
  proof (cases "ignore_unknown_fields d")
    case True
    with err resolve_as_discovered [where gip = gip and c = "cls d" and d = d and data = data
        and args = "[]"]
    have "items_loop gip d (cls d) ?D [] = Inl e" by simp
    from flat_error [where gip = gip and c = "cls d" and d = d, OF discovered_known(1) this]
    show ?thesis using True by simp
  next
    case False
    from strict_error [where gip = gip and c = "cls d" and d = d, OF False err]
    show ?thesis using False by simp
  qed
qed

theorem missing_fields_not_checked_witness:
  "UserDefined_resolve sample_gip person_strict [] = Inr (PDict []) \<and>
   UserDefined_resolve sample_gip named_walk [] = Inr (PDict []) \<and>
   UserDefined_resolve sample_gip person_strict [(PStr ''name'', PStr ''x'')] =
     Inr (PDict [(PStr ''name'', PStr ''x'')]) \<and>
   UserDefined_resolve sample_gip person_ignore
     [(PStr ''other'', PDict [(PStr ''age'', PInt 3)]), (PStr ''name'', PStr ''x'')] =
     Inr (PDict [(PStr ''name'', PStr ''x'')]) \<and>
   UserDefined_resolve sample_gip person_walk
     [(PStr ''other'', PDict [(PStr ''age'', PInt 3)])] =
     Inr (PDict [(PStr ''age'', PInt 3)])"
  using missing_fields_not_checked [where gip = sample_gip and d = person_strict
      and data = "[(PStr ''name'', PStr ''x'')]" and r = "\<lambda>k v. v"]
    missing_fields_not_checked [where gip = sample_gip and d = named_walk and data = "[]"]
    missing_fields_not_checked [where gip = sample_gip and d = person_ignore
      and data = "[(PStr ''other'', PDict [(PStr ''age'', PInt 3)]), (PStr ''name'', PStr ''x'')]"
      and r = "\<lambda>k v. v"]
    missing_fields_not_checked [where gip = sample_gip and d = person_walk
      and data = "[(PStr ''other'', PDict [(PStr ''age'', PInt 3)])]" and r = "\<lambda>k v. v"]
  by (simp add: person_strict_def named_walk_def person_ignore_def person_walk_def
      sample_gip_def sample_func_def dict_update_def)

end
